theory Spec2Isabelle
  imports Main
begin

section \<open>The data model of src/lib/index.ts\<close>

text \<open>
  A JavaScript number as the engine looks at it: either an integer, or a value for which
  \<^verbatim>\<open>Number.isInteger\<close> is false (a fraction, NaN, an infinity).
\<close>

datatype number = Integer int | NonInteger

text \<open>The array index an accepted coordinate denotes; read only after \<^verbatim>\<open>getBlock\<close> accepted it.\<close>

fun idx :: "number \<Rightarrow> int" where
  "idx (Integer i) = i"
| "idx NonInteger = 0"

text \<open>\<^verbatim>\<open>enum EBlockStatus\<close>: the negative codes of a cell of \<^verbatim>\<open>blocks\<close>.\<close>

abbreviation UNKNWON :: int where "UNKNWON \<equiv> - 1"
abbreviation MARKED :: int where "MARKED \<equiv> - 2"
abbreviation QUESTION :: int where "QUESTION \<equiv> - 3"
abbreviation WRONG :: int where "WRONG \<equiv> - 4"
abbreviation MINE :: int where "MINE \<equiv> - 5"
abbreviation DEAD :: int where "DEAD \<equiv> - 6"

text \<open>\<^verbatim>\<open>const MINE_FLAG = -1\<close>: the value of a cell of \<^verbatim>\<open>mines\<close> that holds a mine.\<close>

abbreviation MINE_FLAG :: int where "MINE_FLAG \<equiv> - 1"

datatype EGameStatus = PLAYING | WIN | FAILED

datatype EMarkStyle = Style_UNMARKED | Style_MINE | Style_QUESTION

datatype error = INVALID_GAME_MAP | TOO_MANY_MINES | OUT_TO_BOUNDARY

text \<open>\<^verbatim>\<open>interface IBlock { x; y }\<close> as the pair \<open>(x, y)\<close>.\<close>

type_synonym IBlock = "int \<times> int"

record IContext =
  blocks :: "int list list"
  mines :: "int list list"
  unmarkedMines :: int
  startedAt :: int
  status :: EGameStatus
  unknowns :: int

text \<open>\<^verbatim>\<open>interface IPrivateData\<close>; its field \<^verbatim>\<open>context\<close> is \<open>ctx\<close> here.\<close>

record IPrivateData =
  ctx :: IContext
  height :: int
  width :: int
  mineQuantity :: int
  showMinesOnlyOnFailed :: bool

subsection \<open>Reading and writing a grid\<close>

text \<open>
  \<open>cell g y x\<close> is \<^verbatim>\<open>g[y][x]\<close> and \<open>setCell g y x v\<close> is \<^verbatim>\<open>g[y][x] = v\<close>. The engine
  only touches cells inside the allocated grid; outside it the model reads 0 and writes
  nothing.
\<close>

definition present :: "int list list \<Rightarrow> int \<Rightarrow> int \<Rightarrow> bool" where
  "present g y x = (0 \<le> y \<and> nat y < length g \<and> 0 \<le> x \<and> nat x < length (g ! nat y))"

definition cell :: "int list list \<Rightarrow> int \<Rightarrow> int \<Rightarrow> int" where
  "cell g y x = (if present g y x then g ! nat y ! nat x else 0)"

definition setCell :: "int list list \<Rightarrow> int \<Rightarrow> int \<Rightarrow> int \<Rightarrow> int list list" where
  "setCell g y x v = (if present g y x then g[nat y := (g ! nat y)[nat x := v]] else g)"

text \<open>The assignments to \<^verbatim>\<open>_this.context.blocks[y][x]\<close> and \<^verbatim>\<open>ctx.mines[y][x]\<close>.\<close>

definition setBlock :: "IPrivateData \<Rightarrow> int \<Rightarrow> int \<Rightarrow> int \<Rightarrow> IPrivateData" where
  "setBlock s y x v = s\<lparr>ctx := (ctx s)\<lparr>blocks := setCell (blocks (ctx s)) y x v\<rparr>\<rparr>"

definition setMine :: "IPrivateData \<Rightarrow> int \<Rightarrow> int \<Rightarrow> int \<Rightarrow> IPrivateData" where
  "setMine s y x v = s\<lparr>ctx := (ctx s)\<lparr>mines := setCell (mines (ctx s)) y x v\<rparr>\<rparr>"

abbreviation block :: "IPrivateData \<Rightarrow> int \<Rightarrow> int \<Rightarrow> int" where
  "block s y x \<equiv> cell (blocks (ctx s)) y x"

abbreviation mine :: "IPrivateData \<Rightarrow> int \<Rightarrow> int \<Rightarrow> int" where
  "mine s y x \<equiv> cell (mines (ctx s)) y x"

section \<open>The operations\<close>

fun checkCoordinate :: "IPrivateData \<Rightarrow> number \<Rightarrow> number \<Rightarrow> bool" where
  "checkCoordinate s (Integer x) (Integer y) = (x \<ge> 0 \<and> x < width s \<and> y \<ge> 0 \<and> y < height s)"
| "checkCoordinate s _ _ = False"

definition getBlock :: "IPrivateData \<Rightarrow> number \<Rightarrow> number \<Rightarrow> error + int" where
  "getBlock s x y =
     (if \<not> checkCoordinate s x y then Inl OUT_TO_BOUNDARY
      else Inr (block s (idx y) (idx x)))"

text \<open>The two nested loops of \<^verbatim>\<open>_checkWin\<close>, \<open>x\<close> outside and \<open>y\<close> inside.\<close>

definition checkWin :: "IPrivateData \<Rightarrow> IPrivateData" where
  "checkWin s =
     (if unknowns (ctx s) = unmarkedMines (ctx s) then
        fold (\<lambda>x t. fold (\<lambda>y t. if mine t y x = - 1 then setBlock t y x MARKED else t)
                       (map int [0..<nat (height s)]) t)
             (map int [0..<nat (width s)])
             (s\<lparr>ctx := (ctx s)\<lparr>status := WIN, unmarkedMines := 0, unknowns := 0\<rparr>\<rparr>)
      else s)"

definition mark :: "IPrivateData \<Rightarrow> number \<Rightarrow> number \<Rightarrow> EMarkStyle \<Rightarrow> error + (bool \<times> IPrivateData)" where
  "mark s x y style =
     (if status (ctx s) \<noteq> PLAYING then Inr (False, s)
      else case getBlock s x y of
        Inl e \<Rightarrow> Inl e
      | Inr blk \<Rightarrow>
          if blk = MARKED then
            (case style of
               Style_MINE \<Rightarrow> Inr (True, checkWin s)
             | Style_UNMARKED \<Rightarrow>
                 Inr (True, checkWin (setBlock
                   (s\<lparr>ctx := (ctx s)\<lparr>unmarkedMines := unmarkedMines (ctx s) + 1,
                                      unknowns := unknowns (ctx s) + 1\<rparr>\<rparr>)
                   (idx y) (idx x) UNKNWON))
             | Style_QUESTION \<Rightarrow>
                 Inr (True, checkWin (setBlock
                   (s\<lparr>ctx := (ctx s)\<lparr>unmarkedMines := unmarkedMines (ctx s) + 1,
                                      unknowns := unknowns (ctx s) + 1\<rparr>\<rparr>)
                   (idx y) (idx x) QUESTION)))
          else if blk = QUESTION then
            (case style of
               Style_MINE \<Rightarrow>
                 Inr (True, checkWin (setBlock
                   (s\<lparr>ctx := (ctx s)\<lparr>unmarkedMines := unmarkedMines (ctx s) - 1,
                                      unknowns := unknowns (ctx s) - 1\<rparr>\<rparr>)
                   (idx y) (idx x) MARKED))
             | Style_UNMARKED \<Rightarrow> Inr (True, checkWin (setBlock s (idx y) (idx x) UNKNWON))
             | Style_QUESTION \<Rightarrow> Inr (True, checkWin s))
          else if blk = UNKNWON then
            (case style of
               Style_MINE \<Rightarrow>
                 Inr (True, checkWin (setBlock
                   (s\<lparr>ctx := (ctx s)\<lparr>unmarkedMines := unmarkedMines (ctx s) - 1,
                                      unknowns := unknowns (ctx s) - 1\<rparr>\<rparr>)
                   (idx y) (idx x) MARKED))
             | Style_UNMARKED \<Rightarrow> Inr (True, checkWin s)
             | Style_QUESTION \<Rightarrow> Inr (True, checkWin (setBlock s (idx y) (idx x) QUESTION)))
          else Inr (False, s))"

text \<open>\<^verbatim>\<open>_findBlocksAround\<close>: rows \<open>y - 1\<close> to \<open>y + 1\<close>, in each the columns \<open>x - 1\<close> to \<open>x + 1\<close>.\<close>

definition findBlocksAround :: "IPrivateData \<Rightarrow> int \<Rightarrow> int \<Rightarrow> IBlock list" where
  "findBlocksAround s x y =
     filter (\<lambda>(cX, cY). \<not> ((x = cX \<and> y = cY) \<or> \<not> checkCoordinate s (Integer cX) (Integer cY)))
       (concat (map (\<lambda>cY. map (\<lambda>cX. (cX, cY)) [x - 1, x, x + 1]) [y - 1, y, y + 1]))"

text \<open>
  The first loop of \<^verbatim>\<open>_cleanBlock\<close>: it reveals the still unknown blocks around a
  block and collects those with no mine around them in \<^verbatim>\<open>nextBlks\<close>.
\<close>

definition cleanAround :: "IBlock \<Rightarrow> IPrivateData \<times> IBlock list \<Rightarrow> IPrivateData \<times> IBlock list" where
  "cleanAround b = (\<lambda>(s, nextBlks).
     if block s (snd b) (fst b) \<noteq> UNKNWON then (s, nextBlks)
     else
       (let t = setBlock s (snd b) (fst b) (mine s (snd b) (fst b));
            t = t\<lparr>ctx := (ctx t)\<lparr>unknowns := unknowns (ctx t) - 1\<rparr>\<rparr>
        in (t, if mine t (snd b) (fst b) = 0 then nextBlks @ [b] else nextBlks)))"

text \<open>The number of cells of a grid whose value satisfies \<open>P\<close>.\<close>

definition countCells :: "(int \<Rightarrow> bool) \<Rightarrow> int list list \<Rightarrow> nat" where
  "countCells P g = sum_list (map (\<lambda>row. length (filter P row)) g)"

text \<open>The number of blocks that read \<open>UNKNWON\<close>; the recursion of \<^verbatim>\<open>_cleanBlock\<close> consumes them.\<close>

definition unknownBlocks :: "IPrivateData \<Rightarrow> nat" where
  "unknownBlocks s = countCells (\<lambda>v. v = UNKNWON) (blocks (ctx s))"

text \<open>
  \<^verbatim>\<open>_cleanBlock\<close>, and its second loop \<^verbatim>\<open>for (let b of nextBlks) this._cleanBlock(b.x, b.y)\<close>
  as \<open>cleanNext\<close>, each call working on the state the one before left.
\<close>

function cleanBlock :: "IPrivateData \<Rightarrow> int \<Rightarrow> int \<Rightarrow> IPrivateData"
  and cleanNext :: "IPrivateData \<Rightarrow> IBlock list \<Rightarrow> IPrivateData" where
  "cleanBlock s x y =
     (if \<not> checkCoordinate s (Integer x) (Integer y) then s
      else if mine s y x \<noteq> 0 then s
      else (case fold cleanAround (findBlocksAround s x y) (s, []) of
              (t, nextBlks) \<Rightarrow> cleanNext t nextBlks))"
| "cleanNext s [] = s"
| "cleanNext s (b # bs) = cleanNext (cleanBlock s (fst b) (snd b)) bs"
  by pat_completeness auto

text \<open>The board-wide loop of \<^verbatim>\<open>_die\<close>, \<open>y\<close> outside and \<open>x\<close> inside, and its \<^verbatim>\<open>switch\<close>.\<close>

definition dieBlock :: "int \<Rightarrow> int \<Rightarrow> IPrivateData \<Rightarrow> IPrivateData" where
  "dieBlock y x s =
     (let blk = block s y x in
      if blk = MARKED then
        (if mine s y x \<noteq> MINE_FLAG then setBlock s y x WRONG else s)
      else if blk = QUESTION \<or> blk = UNKNWON then
        (if mine s y x = MINE_FLAG then setBlock s y x MINE
         else if \<not> showMinesOnlyOnFailed s then setBlock s y x (mine s y x)
         else s)
      else s)"

definition die :: "IPrivateData \<Rightarrow> int \<Rightarrow> int \<Rightarrow> IPrivateData" where
  "die s x y =
     fold (\<lambda>y t. fold (\<lambda>x t. dieBlock y x t) (map int [0..<nat (width s)]) t)
          (map int [0..<nat (height s)])
          (setBlock (s\<lparr>ctx := (ctx s)\<lparr>status := FAILED\<rparr>\<rparr>) y x DEAD)"

definition sweep :: "IPrivateData \<Rightarrow> number \<Rightarrow> number \<Rightarrow> error + (EGameStatus \<times> IPrivateData)" where
  "sweep s x y =
     (case getBlock s x y of
        Inl e \<Rightarrow> Inl e
      | Inr blk \<Rightarrow>
          if status (ctx s) \<noteq> PLAYING \<or> blk \<noteq> UNKNWON then Inr (status (ctx s), s)
          else if mine s (idx y) (idx x) = MINE_FLAG then
            (let t = die s (idx x) (idx y) in Inr (status (ctx t), t))
          else
            (let t = setBlock s (idx y) (idx x) (mine s (idx y) (idx x));
                 t = cleanBlock t (idx x) (idx y);
                 t = t\<lparr>ctx := (ctx t)\<lparr>unknowns := unknowns (ctx t) - 1\<rparr>\<rparr>;
                 t = checkWin t
             in Inr (status (ctx t), t)))"

text \<open>
  The loop of \<^verbatim>\<open>explore\<close> over the blocks around, which returns as soon as the game is
  over. An error of \<^verbatim>\<open>sweep\<close> would leave \<^verbatim>\<open>explore\<close> as the exception does.
\<close>

fun exploreAround :: "IPrivateData \<Rightarrow> IBlock list \<Rightarrow> error + IPrivateData" where
  "exploreAround s [] = Inr s"
| "exploreAround s (b # bs) =
     (case (if block s (snd b) (fst b) = UNKNWON
            then map_sum id snd (sweep s (Integer (fst b)) (Integer (snd b)))
            else Inr s) of
        Inl e \<Rightarrow> Inl e
      | Inr t \<Rightarrow> if status (ctx t) \<noteq> PLAYING then Inr t else exploreAround t bs)"

definition explore :: "IPrivateData \<Rightarrow> number \<Rightarrow> number \<Rightarrow> error + (EGameStatus \<times> IPrivateData)" where
  "explore s x y =
     (case getBlock s x y of
        Inl e \<Rightarrow> Inl e
      | Inr blk \<Rightarrow>
          if status (ctx s) \<noteq> PLAYING \<or> blk < 0 then Inr (status (ctx s), s)
          else
            (let blks = findBlocksAround s (idx x) (idx y);
                 marks = fold (\<lambda>b p. p + (if block s (snd b) (fst b) = MARKED then 1 else 0)) blks (0::int)
             in if marks \<ge> mine s (idx y) (idx x) then
                  (case exploreAround s blks of
                     Inl e \<Rightarrow> Inl e
                   | Inr t \<Rightarrow> Inr (status (ctx t), t))
                else Inr (status (ctx s), s)))"

text \<open>
  The loop of \<^verbatim>\<open>restart\<close> around a new mine at \<open>(x, y)\<close>: rows \<open>y - 1\<close> to \<open>y + 1\<close>, in each
  the columns \<open>x - 1\<close> to \<open>x + 1\<close>.
\<close>

definition countUp :: "IPrivateData \<Rightarrow> int \<Rightarrow> int \<Rightarrow> IPrivateData" where
  "countUp s x y =
     fold (\<lambda>(i, j) t.
             if \<not> checkCoordinate t (Integer j) (Integer i) \<or> mine t i j = MINE_FLAG then t
             else setMine t i j (mine t i j + 1))
          (concat (map (\<lambda>i. map (\<lambda>j. (i, j)) [x - 1, x, x + 1]) [y - 1, y, y + 1]))
          s"

text \<open>
  The loop \<^verbatim>\<open>while (mines)\<close> of \<^verbatim>\<open>restart\<close>. Each round draws a row
  \<^verbatim>\<open>y = Math.floor(Math.random() * height)\<close> and a column
  \<^verbatim>\<open>x = Math.floor(Math.random() * width)\<close>. The two numbers are computed in floating point,
  outside this model: the pairs \<open>(y, x)\<close> drawn, one for each round, are read from a list.
  The loop has not finished (\<open>None\<close>) when the list runs out with mines left to put. Only
  cells of the map are ever drawn (\<open>drawn\<close> below); the equations say nothing of use about
  other pairs.
\<close>

fun putMines :: "IPrivateData \<Rightarrow> int \<Rightarrow> (int \<times> int) list \<Rightarrow> IPrivateData option" where
  "putMines s n ((y, x) # rs) =
     (if n = 0 then Some s
      else if mine s y x = MINE_FLAG then putMines s n rs
      else putMines (countUp (setMine s y x MINE_FLAG) x y) (n - 1) rs)"
| "putMines s n [] = (if n = 0 then Some s else None)"

text \<open>
  \<^verbatim>\<open>restart\<close>, with \<^verbatim>\<open>Date.now()\<close> and the cells its loop draws given. (For a height or width
  of \<open>2 ^ 32\<close> or more \<^verbatim>\<open>new Array\<close> throws: no game of that size exists, and the model has no
  such error.)
\<close>

definition restart :: "IPrivateData \<Rightarrow> int \<Rightarrow> (int \<times> int) list \<Rightarrow> IPrivateData option" where
  "restart s now rs =
     putMines
       (s\<lparr>ctx := \<lparr>blocks = replicate (nat (height s)) (replicate (nat (width s)) UNKNWON),
                  mines = replicate (nat (height s)) (replicate (nat (width s)) 0),
                  unmarkedMines = mineQuantity s,
                  startedAt = now,
                  status = PLAYING,
                  unknowns = height s * width s\<rparr>\<rparr>)
       (mineQuantity s) rs"

text \<open>
  The constructor. Its \<^verbatim>\<open>context: null\<close> before \<^verbatim>\<open>restart\<close> is an empty context here, which
  \<^verbatim>\<open>restart\<close> replaces whole.
\<close>

fun MineSweeper :: "number \<Rightarrow> number \<Rightarrow> number \<Rightarrow> bool \<Rightarrow> int \<Rightarrow> (int \<times> int) list \<Rightarrow> error + IPrivateData option" where
  "MineSweeper (Integer h) (Integer w) (Integer m) showMinesOnly now rs =
     (if m < 1 \<or> h < 2 \<or> m < 2 then Inl INVALID_GAME_MAP
      else if m \<ge> w * h then Inl TOO_MANY_MINES
      else Inr (restart
        \<lparr>ctx = \<lparr>blocks = [], mines = [], unmarkedMines = 0, startedAt = 0, status = PLAYING, unknowns = 0\<rparr>,
         height = h, width = w, mineQuantity = m, showMinesOnlyOnFailed = showMinesOnly\<rparr> now rs))"
| "MineSweeper _ _ _ showMinesOnly now rs = Inl INVALID_GAME_MAP"

section \<open>The states of a game\<close>

text \<open>
  What the loop of \<^verbatim>\<open>restart\<close> can draw. \<^verbatim>\<open>Math.random()\<close> returns a double that is at least 0
  and less than 1; its product with a size \<open>n\<close> of the map, rounded to a double, is at
  least 0 and still less than \<open>n\<close>, so that \<^verbatim>\<open>Math.floor(Math.random() * n)\<close> is an integer
  from 0 to \<open>n - 1\<close>: every pair drawn is a row and a column of the map.
\<close>

definition drawn :: "IPrivateData \<Rightarrow> (int \<times> int) list \<Rightarrow> bool" where
  "drawn s rs = list_all (\<lambda>(y, x). 0 \<le> y \<and> y < height s \<and> 0 \<le> x \<and> x < width s) rs"

text \<open>
  The states a game can be in: those the constructor returns, and those the public
  operations \<^verbatim>\<open>restart\<close>, \<^verbatim>\<open>mark\<close>, \<^verbatim>\<open>sweep\<close> and \<^verbatim>\<open>explore\<close> lead to. A call that throws
  leaves the state as it was, since each operation calls \<^verbatim>\<open>getBlock\<close> before it writes.
\<close>

inductive reachable :: "IPrivateData \<Rightarrow> bool" where
  created: "MineSweeper h w m f now rs = Inr (Some s) \<Longrightarrow> drawn s rs \<Longrightarrow> reachable s"
| restarted: "reachable s \<Longrightarrow> restart s now rs = Some t \<Longrightarrow> drawn s rs \<Longrightarrow> reachable t"
| marked: "reachable s \<Longrightarrow> mark s x y style = Inr (b, t) \<Longrightarrow> reachable t"
| swept: "reachable s \<Longrightarrow> sweep s x y = Inr (r, t) \<Longrightarrow> reachable t"
| explored: "reachable s \<Longrightarrow> explore s x y = Inr (r, t) \<Longrightarrow> reachable t"

section \<open>Grids\<close>

lemma present_setCell [simp]: "present (setCell g y x v) y' x' = present g y' x'"
  by (auto simp: present_def setCell_def nth_list_update)

lemma cell_setCell:
  "cell (setCell g y x v) y' x' = (if y' = y \<and> x' = x \<and> present g y x then v else cell g y' x')"
  apply (auto simp: cell_def)
  apply (auto simp: present_def setCell_def nth_list_update nat_eq_iff)
  done

lemma cell_nonzero_present: "cell g y x \<noteq> 0 \<Longrightarrow> present g y x"
  by (auto simp: cell_def split: if_splits)

lemma length_filter_update:
  "i < length xs \<Longrightarrow>
   length (filter P (xs[i := v])) + (if P (xs ! i) then 1 else 0)
     = length (filter P xs) + (if P v then 1 else 0)"
proof (induction xs arbitrary: i)
  case Nil then show ?case by simp
next
  case (Cons a xs)
  then show ?case by (cases i) auto
qed

lemma sum_list_map_update:
  "i < length xs \<Longrightarrow>
   sum_list (map f (xs[i := r])) + f (xs ! i) = sum_list (map f xs) + (f r :: nat)"
proof (induction xs arbitrary: i)
  case Nil then show ?case by simp
next
  case (Cons a xs)
  then show ?case by (cases i) auto
qed

lemma countCells_setCell:
  assumes "present g y x"
  shows "countCells P (setCell g y x v) + (if P (cell g y x) then 1 else 0)
           = countCells P g + (if P v then 1 else 0)"
proof -
  from assms have y: "nat y < length g" and x: "nat x < length (g ! nat y)"
    by (auto simp: present_def)
  have "countCells P (setCell g y x v) + length (filter P (g ! nat y))
          = countCells P g + length (filter P ((g ! nat y)[nat x := v]))"
    using sum_list_map_update[OF y, of "\<lambda>row. length (filter P row)" "(g ! nat y)[nat x := v]"] assms
    by (simp add: countCells_def setCell_def)
  moreover note length_filter_update[OF x, of P v]
  ultimately show ?thesis using assms by (simp add: cell_def)
qed

lemma cleanAround_unknownBlocks:
  "cleanAround b (s, acc) = (t, next) \<Longrightarrow>
   unknownBlocks t + length next \<le> unknownBlocks s + length acc"
proof -
  assume a: "cleanAround b (s, acc) = (t, next)"
  show ?thesis
  proof (cases "block s (snd b) (fst b) = UNKNWON")
    case False
    with a show ?thesis by (simp add: cleanAround_def)
  next
    case True
    then have p: "present (blocks (ctx s)) (snd b) (fst b)"
      by (intro cell_nonzero_present) simp
    from countCells_setCell[OF p, of "\<lambda>v. v = UNKNWON" "mine s (snd b) (fst b)"] True a
    show ?thesis
      by (auto simp: cleanAround_def unknownBlocks_def setBlock_def Let_def split: if_splits)
  qed
qed

lemma fold_cleanAround_unknownBlocks:
  "fold cleanAround bs (s, acc) = (t, next) \<Longrightarrow>
   unknownBlocks t + length next \<le> unknownBlocks s + length acc"
proof (induction bs arbitrary: s acc)
  case Nil then show ?case by simp
next
  case (Cons b bs)
  obtain s1 acc1 where st: "cleanAround b (s, acc) = (s1, acc1)" by (cases "cleanAround b (s, acc)")
  with Cons.prems have "fold cleanAround bs (s1, acc1) = (t, next)" by simp
  from Cons.IH[OF this] cleanAround_unknownBlocks[OF st] show ?case by linarith
qed

lemma cleanBlock_dom_unknownBlocks:
  "cleanBlock_cleanNext_dom (Inl (s, x, y)) \<Longrightarrow> unknownBlocks (cleanBlock s x y) \<le> unknownBlocks s"
  "cleanBlock_cleanNext_dom (Inr (s, bs)) \<Longrightarrow> unknownBlocks (cleanNext s bs) \<le> unknownBlocks s"
proof (induction s x y and s bs rule: cleanBlock_cleanNext.pinduct)
  case (1 s x y)
  show ?case
  proof (cases "\<not> checkCoordinate s (Integer x) (Integer y) \<or> mine s y x \<noteq> 0")
    case True
    then show ?thesis using 1(1) by (auto simp: cleanBlock.psimps)
  next
    case False
    obtain t nextBlks where f: "fold cleanAround (findBlocksAround s x y) (s, []) = (t, nextBlks)"
      by (cases "fold cleanAround (findBlocksAround s x y) (s, [])")
    from False f have "cleanBlock s x y = cleanNext t nextBlks"
      using 1(1) by (simp add: cleanBlock.psimps)
    moreover have "unknownBlocks (cleanNext t nextBlks) \<le> unknownBlocks t"
      using 1(2)[OF _ _ f[symmetric]] False by simp
    moreover have "unknownBlocks t \<le> unknownBlocks s"
      using fold_cleanAround_unknownBlocks[OF f] by simp
    ultimately show ?thesis by simp
  qed
next
  case (2 s)
  then show ?case by (simp add: cleanNext.psimps)
next
  case (3 s b bs)
  then show ?case by (simp add: cleanNext.psimps)
qed

text \<open>
  \<^verbatim>\<open>_cleanBlock\<close> returns: a call that goes on to further calls has revealed a block first,
  and the calls it makes one after the other reveal, never hide.
\<close>

termination cleanBlock
proof (relation "inv_image (less_than <*lex*> less_than)
    (\<lambda>v. case v of Inl (s, x, y) \<Rightarrow> (unknownBlocks s, 1)
                  | Inr (s, bs) \<Rightarrow> (unknownBlocks s, if bs = [] then 0 else length bs + 1))", goal_cases)
  case 1
  then show ?case by (intro wf_inv_image wf_lex_prod wf_less_than)
next
  case (2 s x y t nextBlks)
  from fold_cleanAround_unknownBlocks[OF 2(3)[symmetric]] show ?case
    by (cases nextBlks) auto
next
  case (3 s b bs)
  then show ?case by simp
next
  case (4 s b bs)
  from cleanBlock_dom_unknownBlocks(1)[OF 4] show ?case by auto
qed


lemma fold_nested:
  "fold (\<lambda>a t. fold (\<lambda>b t. f a b t) bs t) as t = fold (\<lambda>(a, b) t. f a b t) (List.product as bs) t"
proof (induction as arbitrary: t)
  case Nil then show ?case by simp
next
  case (Cons a as)
  have "fold (\<lambda>(a, b). f a b) (map (Pair a) bs) t = fold (f a) bs t" for t
    by (simp add: fold_map comp_def)
  with Cons show ?case by simp
qed

lemma setCell_same [simp]: "setCell g y x (cell g y x) = g"
  by (simp add: setCell_def cell_def)

lemma setBlock_same [simp]: "setBlock s y x (block s y x) = s"
  by (simp add: setBlock_def)

lemma setBlock_fields [simp]:
  "mines (ctx (setBlock s y x v)) = mines (ctx s)"
  "unmarkedMines (ctx (setBlock s y x v)) = unmarkedMines (ctx s)"
  "startedAt (ctx (setBlock s y x v)) = startedAt (ctx s)"
  "status (ctx (setBlock s y x v)) = status (ctx s)"
  "unknowns (ctx (setBlock s y x v)) = unknowns (ctx s)"
  "height (setBlock s y x v) = height s"
  "width (setBlock s y x v) = width s"
  "mineQuantity (setBlock s y x v) = mineQuantity s"
  "showMinesOnlyOnFailed (setBlock s y x v) = showMinesOnlyOnFailed s"
  "blocks (ctx (setBlock s y x v)) = setCell (blocks (ctx s)) y x v"
  by (simp_all add: setBlock_def)

text \<open>Two states that differ in their blocks at most.\<close>

definition sameButBlocks :: "IPrivateData \<Rightarrow> IPrivateData \<Rightarrow> bool" where
  "sameButBlocks s t = (t = s\<lparr>ctx := (ctx s)\<lparr>blocks := blocks (ctx t)\<rparr>\<rparr>)"

lemma sameButBlocks_refl [simp]: "sameButBlocks s s"
  by (simp add: sameButBlocks_def)

lemma sameButBlocks_setBlock [simp]: "sameButBlocks s (setBlock s y x v)"
  by (simp add: sameButBlocks_def setBlock_def)

lemma sameButBlocks_trans: "sameButBlocks s t \<Longrightarrow> sameButBlocks t u \<Longrightarrow> sameButBlocks s u"
  unfolding sameButBlocks_def
  by (metis (no_types, lifting) IContext.surjective IContext.update_convs(1) IPrivateData.surjective IPrivateData.update_convs(1))

lemma sameButBlocks_fields:
  assumes "sameButBlocks s t"
  shows "mines (ctx t) = mines (ctx s)" "unmarkedMines (ctx t) = unmarkedMines (ctx s)"
    "startedAt (ctx t) = startedAt (ctx s)" "status (ctx t) = status (ctx s)"
    "unknowns (ctx t) = unknowns (ctx s)" "height t = height s" "width t = width s"
    "mineQuantity t = mineQuantity s" "showMinesOnlyOnFailed t = showMinesOnlyOnFailed s"
  using assms unfolding sameButBlocks_def
  by (metis IContext.select_convs IContext.surjective IContext.update_convs(1) IPrivateData.select_convs IPrivateData.surjective IPrivateData.update_convs(1))+

lemma fold_setBlock_pointwise:
  assumes h: "\<And>t u. sameButBlocks t u \<Longrightarrow> h u = h t"
    and d: "distinct cs"
  shows "sameButBlocks t0 (fold (\<lambda>c t. setBlock t (fst c) (snd c) (h t c (block t (fst c) (snd c)))) cs t0)
    \<and> (\<forall>y x. present (blocks (ctx (fold (\<lambda>c t. setBlock t (fst c) (snd c) (h t c (block t (fst c) (snd c)))) cs t0))) y x
             = present (blocks (ctx t0)) y x)
    \<and> (\<forall>y x. block (fold (\<lambda>c t. setBlock t (fst c) (snd c) (h t c (block t (fst c) (snd c)))) cs t0) y x
         = (if (y, x) \<in> set cs \<and> present (blocks (ctx t0)) y x then h t0 (y, x) (block t0 y x)
            else block t0 y x))"
  using d
proof (induction cs arbitrary: t0)
  case Nil then show ?case by simp
next
  case (Cons c cs)
  let ?t1 = "setBlock t0 (fst c) (snd c) (h t0 c (block t0 (fst c) (snd c)))"
  have s1: "sameButBlocks t0 ?t1" by simp
  from Cons.prems have dc: "distinct cs" and nc: "c \<notin> set cs" by auto
  note IH = Cons.IH[OF dc, of ?t1]
  have h1: "h ?t1 = h t0" using h[OF s1] .
  show ?case
    apply (simp only: fold_simps)
    apply (intro conjI allI)
    subgoal using IH s1 sameButBlocks_trans by blast
    subgoal using IH by simp
    subgoal for y x
    proof -
      have e: "(y, x) = c \<longleftrightarrow> y = fst c \<and> x = snd c" by auto
      show ?thesis using IH nc unfolding h1
        by (simp add: cell_setCell e) (use nc e in auto)
    qed
    done
qed

lemma countCells_card:
  "countCells P g = card {(y, x). present g y x \<and> P (cell g y x)}"
proof -
  let ?B = "\<lambda>i. {j. j < length (g ! i) \<and> P (g ! i ! j)}"
  have "countCells P g = (\<Sum>i = 0..<length g. card (?B i))"
    by (simp add: countCells_def sum_list_sum_nth length_filter_conv_card)
  also have "\<dots> = card (SIGMA i:{0..<length g}. ?B i)"
    by (subst card_SigmaI) auto
  also have "\<dots> = card ((\<lambda>(i, j). (int i, int j)) ` (SIGMA i:{0..<length g}. ?B i))"
    by (rule card_image[symmetric]) (auto simp: inj_on_def)
  also have "(\<lambda>(i, j). (int i, int j)) ` (SIGMA i:{0..<length g}. ?B i)
      = {(y, x). present g y x \<and> P (cell g y x)}"
  proof (intro set_eqI iffI; clarsimp simp: present_def cell_def)
    fix y x assume "0 \<le> y" "nat y < length g" "0 \<le> x" "nat x < length (g ! nat y)" "P (g ! nat y ! nat x)"
    then show "(y, x) \<in> (\<lambda>(i, j). (int i, int j)) ` (SIGMA i:{0..<length g}. ?B i)"
      by (intro image_eqI[where x = "(nat y, nat x)"]) auto
  qed
  finally show ?thesis .
qed

lemma finite_present: "finite {(y, x). present g y x \<and> P y x}"
proof -
  have "{(y, x). present g y x \<and> P y x} \<subseteq> (\<lambda>(i, j). (int i, int j)) ` (SIGMA i:{0..<length g}. {0..<length (g ! i)})"
  proof (clarsimp simp: present_def)
    fix y x assume "0 \<le> y" "nat y < length g" "0 \<le> x" "nat x < length (g ! nat y)"
    then show "(y, x) \<in> (\<lambda>(i, j). (int i, int j)) ` (SIGMA i:{0..<length g}. {0..<length (g ! i)})"
      by (intro image_eqI[where x = "(nat y, nat x)"]) auto
  qed
  then show ?thesis by (rule finite_subset) auto
qed


lemma setMine_fields [simp]:
  "blocks (ctx (setMine s y x v)) = blocks (ctx s)"
  "unmarkedMines (ctx (setMine s y x v)) = unmarkedMines (ctx s)"
  "startedAt (ctx (setMine s y x v)) = startedAt (ctx s)"
  "status (ctx (setMine s y x v)) = status (ctx s)"
  "unknowns (ctx (setMine s y x v)) = unknowns (ctx s)"
  "height (setMine s y x v) = height s"
  "width (setMine s y x v) = width s"
  "mineQuantity (setMine s y x v) = mineQuantity s"
  "showMinesOnlyOnFailed (setMine s y x v) = showMinesOnlyOnFailed s"
  "mines (ctx (setMine s y x v)) = setCell (mines (ctx s)) y x v"
  by (simp_all add: setMine_def)

text \<open>Two states that differ in their mines at most.\<close>

definition sameButMines :: "IPrivateData \<Rightarrow> IPrivateData \<Rightarrow> bool" where
  "sameButMines s t = (t = s\<lparr>ctx := (ctx s)\<lparr>mines := mines (ctx t)\<rparr>\<rparr>)"

lemma sameButMines_refl [simp]: "sameButMines s s"
  by (simp add: sameButMines_def)

lemma sameButMines_setMine [simp]: "sameButMines s (setMine s y x v)"
  by (simp add: sameButMines_def setMine_def)

lemma sameButMines_trans: "sameButMines s t \<Longrightarrow> sameButMines t u \<Longrightarrow> sameButMines s u"
  unfolding sameButMines_def
  by (metis (no_types, lifting) IContext.surjective IContext.update_convs(2) IPrivateData.surjective IPrivateData.update_convs(1))

lemma sameButMines_fields:
  assumes "sameButMines s t"
  shows "blocks (ctx t) = blocks (ctx s)" "unmarkedMines (ctx t) = unmarkedMines (ctx s)"
    "startedAt (ctx t) = startedAt (ctx s)" "status (ctx t) = status (ctx s)"
    "unknowns (ctx t) = unknowns (ctx s)" "height t = height s" "width t = width s"
    "mineQuantity t = mineQuantity s" "showMinesOnlyOnFailed t = showMinesOnlyOnFailed s"
  using assms unfolding sameButMines_def
  by (metis IContext.select_convs IContext.surjective IContext.update_convs(2) IPrivateData.select_convs IPrivateData.surjective IPrivateData.update_convs(1))+

lemma fold_sameButMines:
  assumes "\<And>c t. sameButMines t (f c t)"
  shows "sameButMines s (fold f cs s)"
proof (induction cs arbitrary: s)
  case Nil then show ?case by simp
next
  case (Cons c cs)
  from assms[of s c] Cons[of "f c s"] show ?case
    by (auto intro: sameButMines_trans)
qed

lemma countUp_sameButMines: "sameButMines s (countUp s x y)"
  unfolding countUp_def by (rule fold_sameButMines) (auto split: prod.splits)

lemma putMines_sameButMines: "putMines s n rs = Some t \<Longrightarrow> sameButMines s t"
proof (induction s n rs arbitrary: t rule: putMines.induct)
  case (1 s n y x rs)
  show ?case
  proof (cases "n = 0")
    case True with 1(3) show ?thesis by simp
  next
    case n: False
    show ?thesis
    proof (cases "mine s y x = MINE_FLAG")
      case True
      with n 1(3) have "putMines s n rs = Some t" by simp
      from 1(1)[OF n True this] show ?thesis .
    next
      case False
      let ?s1 = "countUp (setMine s y x MINE_FLAG) x y"
      from False n 1(3) have "putMines ?s1 (n - 1) rs = Some t" by simp
      from 1(2)[OF n False this] have "sameButMines ?s1 t" .
      moreover have "sameButMines s ?s1"
        using sameButMines_trans[OF sameButMines_setMine countUp_sameButMines] .
      ultimately show ?thesis by (rule sameButMines_trans[rotated])
    qed
  qed
qed (simp_all split: if_splits)

lemma restart_fields:
  assumes "restart s now rs = Some t"
  shows "blocks (ctx t) = replicate (nat (height s)) (replicate (nat (width s)) UNKNWON)"
    "unmarkedMines (ctx t) = mineQuantity s" "startedAt (ctx t) = now" "status (ctx t) = PLAYING"
    "unknowns (ctx t) = height s * width s" "height t = height s" "width t = width s"
    "mineQuantity t = mineQuantity s" "showMinesOnlyOnFailed t = showMinesOnlyOnFailed s"
  using sameButMines_fields[OF putMines_sameButMines[OF assms[unfolded restart_def]]]
  by simp_all

section \<open>Shape of the grids and the board-wide loops\<close>

text \<open>A coordinate pair of integers that \<^verbatim>\<open>_checkCoordinate\<close> accepts.\<close>

abbreviation inside :: "IPrivateData \<Rightarrow> int \<Rightarrow> int \<Rightarrow> bool" where
  "inside s x y \<equiv> checkCoordinate s (Integer x) (Integer y)"

text \<open>Both grids have \<open>height\<close> rows of \<open>width\<close> cells, as \<^verbatim>\<open>restart\<close> allocates them.\<close>

definition shaped :: "IPrivateData \<Rightarrow> bool" where
  "shaped s =
     (map length (blocks (ctx s)) = replicate (nat (height s)) (nat (width s))
      \<and> map length (mines (ctx s)) = replicate (nat (height s)) (nat (width s)))"

lemma present_map_length:
  "present g y x = (0 \<le> y \<and> nat y < length (map length g) \<and> 0 \<le> x \<and> nat x < map length g ! nat y)"
  by (auto simp: present_def)

lemma present_cong: "map length g' = map length g \<Longrightarrow> present g' y x = present g y x"
  by (simp only: present_map_length)

lemma shaped_present:
  assumes "shaped s"
  shows "present (blocks (ctx s)) y x = inside s x y" "present (mines (ctx s)) y x = inside s x y"
  using assms by (auto simp: shaped_def present_map_length)

lemma map_length_setCell [simp]: "map length (setCell g y x v) = map length g"
  by (auto simp: setCell_def map_update list_update_same_conv present_def)

lemma shaped_setBlock [simp]: "shaped (setBlock s y x v) = shaped s"
  by (simp add: shaped_def)

lemma shaped_setMine [simp]: "shaped (setMine s y x v) = shaped s"
  by (simp add: shaped_def)

lemma fold_setBlock_map_length:
  "map length (blocks (ctx (fold (\<lambda>c t. setBlock t (fst c) (snd c) (v c t)) cs t0)))
     = map length (blocks (ctx t0))"
  by (induction cs arbitrary: t0) simp_all

lemma sameButBlocks_shaped:
  "sameButBlocks s t \<Longrightarrow> map length (blocks (ctx t)) = map length (blocks (ctx s)) \<Longrightarrow> shaped t = shaped s"
  by (simp add: shaped_def sameButBlocks_fields)

lemma set_int_upt [simp]: "set (map int [0..<nat h]) = {y. 0 \<le> y \<and> y < h}"
proof (intro set_eqI iffI)
  fix y assume "y \<in> {y. 0 \<le> y \<and> y < h}"
  then have "y = int (nat y)" "nat y \<in> set [0..<nat h]" by auto
  then show "y \<in> set (map int [0..<nat h])" by (metis image_eqI set_map)
qed auto

lemma set_swap_product [simp]:
  "(y, x) \<in> set (map (\<lambda>(x, y). (y, x)) (List.product xs ys)) \<longleftrightarrow> x \<in> set xs \<and> y \<in> set ys"
  by (auto simp: image_iff)

lemma distinct_int_upt [simp]: "distinct (map int [0..<n])"
  by (simp add: distinct_map)

lemma fold_rows_columns:
  "fold (\<lambda>y t. fold (\<lambda>x t. f y x t) xs t) ys t = fold (\<lambda>c t. f (fst c) (snd c) t) (List.product ys xs) t"
  by (simp add: fold_nested case_prod_beta')

lemma fold_columns_rows:
  "fold (\<lambda>x t. fold (\<lambda>y t. f y x t) ys t) xs t
     = fold (\<lambda>c t. f (fst c) (snd c) t) (map (\<lambda>(x, y). (y, x)) (List.product xs ys)) t"
  by (simp add: fold_nested fold_map comp_def case_prod_beta')

text \<open>What \<^verbatim>\<open>_checkWin\<close> does to a state.\<close>

lemma checkWin_no: "unknowns (ctx s) \<noteq> unmarkedMines (ctx s) \<Longrightarrow> checkWin s = s"
  by (simp add: checkWin_def)

lemma checkWin_yes:
  assumes eq: "unknowns (ctx s) = unmarkedMines (ctx s)"
  shows "sameButBlocks (s\<lparr>ctx := (ctx s)\<lparr>status := WIN, unmarkedMines := 0, unknowns := 0\<rparr>\<rparr>) (checkWin s)"
    and "map length (blocks (ctx (checkWin s))) = map length (blocks (ctx s))"
    and "block (checkWin s) y x =
          (if inside s x y \<and> present (blocks (ctx s)) y x \<and> mine s y x = MINE_FLAG then MARKED
           else block s y x)"
proof -
  let ?s1 = "s\<lparr>ctx := (ctx s)\<lparr>status := WIN, unmarkedMines := 0, unknowns := 0\<rparr>\<rparr>"
  let ?h = "\<lambda>t (c :: int \<times> int) v. if mine t (fst c) (snd c) = MINE_FLAG then MARKED else v"
  let ?cs = "map (\<lambda>(x, y). (y, x)) (List.product (map int [0..<nat (width s)]) (map int [0..<nat (height s)]))"
  let ?body = "\<lambda>c t. setBlock t (fst c) (snd c) (?h t c (block t (fst c) (snd c)))"
  have body: "(\<lambda>c t. if mine t (fst c) (snd c) = - 1 then setBlock t (fst c) (snd c) MARKED else t) = ?body"
    by (auto simp: fun_eq_iff)
  have "checkWin s = fold (\<lambda>c t. if mine t (fst c) (snd c) = - 1 then setBlock t (fst c) (snd c) MARKED else t) ?cs ?s1"
    unfolding checkWin_def by (simp only: eq refl if_True fold_columns_rows)
  then have cw: "checkWin s = fold ?body ?cs ?s1"
    by (simp only: body)
  have d: "distinct ?cs"
    by (auto simp: distinct_map distinct_product inj_on_def)
  have hh: "\<And>t u. sameButBlocks t u \<Longrightarrow> ?h u = ?h t"
    by (simp add: sameButBlocks_fields)
  note P = fold_setBlock_pointwise[of ?h, OF hh d, of ?s1, folded cw]
  show "sameButBlocks ?s1 (checkWin s)" using P by simp
  show "map length (blocks (ctx (checkWin s))) = map length (blocks (ctx s))"
    unfolding cw by (simp add: fold_setBlock_map_length)
  have m: "(y, x) \<in> set ?cs \<longleftrightarrow> inside s x y"
    by (simp only: set_swap_product set_int_upt) auto
  from P have "block (checkWin s) y x =
      (if (y, x) \<in> set ?cs \<and> present (blocks (ctx ?s1)) y x then ?h ?s1 (y, x) (block ?s1 y x) else block ?s1 y x)"
    by blast
  then show "block (checkWin s) y x =
          (if inside s x y \<and> present (blocks (ctx s)) y x \<and> mine s y x = MINE_FLAG then MARKED
           else block s y x)"
    unfolding m by simp
qed

text \<open>The value the \<^verbatim>\<open>switch\<close> of \<^verbatim>\<open>_die\<close> leaves in a block that read \<open>v\<close>.\<close>

definition dieValue :: "IPrivateData \<Rightarrow> int \<times> int \<Rightarrow> int \<Rightarrow> int" where
  "dieValue s c v =
     (if v = MARKED then (if mine s (fst c) (snd c) \<noteq> MINE_FLAG then WRONG else v)
      else if v = QUESTION \<or> v = UNKNWON then
        (if mine s (fst c) (snd c) = MINE_FLAG then MINE
         else if \<not> showMinesOnlyOnFailed s then mine s (fst c) (snd c)
         else v)
      else v)"

lemma dieBlock_setBlock: "dieBlock y x t = setBlock t y x (dieValue t (y, x) (block t y x))"
  by (auto simp: dieBlock_def dieValue_def Let_def) (metis setBlock_same)+

lemma set_product_inside:
  "(y, x) \<in> set (List.product (map int [0..<nat (height s)]) (map int [0..<nat (width s)])) \<longleftrightarrow> inside s x y"
  by (simp only: set_product set_int_upt) auto

lemma die_result:
  shows "sameButBlocks (s\<lparr>ctx := (ctx s)\<lparr>status := FAILED\<rparr>\<rparr>) (die s x0 y0)"
    and "map length (blocks (ctx (die s x0 y0))) = map length (blocks (ctx s))"
    and "block (die s x0 y0) y x =
          (if inside s x y \<and> present (blocks (ctx s)) y x
           then dieValue s (y, x) (if y = y0 \<and> x = x0 then DEAD else block s y x)
           else if y = y0 \<and> x = x0 \<and> present (blocks (ctx s)) y x then DEAD
           else block s y x)"
proof -
  let ?s1 = "setBlock (s\<lparr>ctx := (ctx s)\<lparr>status := FAILED\<rparr>\<rparr>) y0 x0 DEAD"
  let ?cs = "List.product (map int [0..<nat (height s)]) (map int [0..<nat (width s)])"
  let ?body = "\<lambda>c t. setBlock t (fst c) (snd c) (dieValue t c (block t (fst c) (snd c)))"
  have cw: "die s x0 y0 = fold ?body ?cs ?s1"
    unfolding die_def by (simp only: fold_rows_columns dieBlock_setBlock prod.collapse)
  have d: "distinct ?cs"
    by (auto simp: distinct_map distinct_product inj_on_def)
  have hh: "\<And>t u. sameButBlocks t u \<Longrightarrow> dieValue u = dieValue t"
    by (simp add: sameButBlocks_fields dieValue_def fun_eq_iff)
  note P = fold_setBlock_pointwise[of dieValue, OF hh d, of ?s1, folded cw]
  have s1: "sameButBlocks (s\<lparr>ctx := (ctx s)\<lparr>status := FAILED\<rparr>\<rparr>) ?s1" by simp
  show "sameButBlocks (s\<lparr>ctx := (ctx s)\<lparr>status := FAILED\<rparr>\<rparr>) (die s x0 y0)"
    using P sameButBlocks_trans[OF s1] by blast
  show "map length (blocks (ctx (die s x0 y0))) = map length (blocks (ctx s))"
    unfolding cw by (simp add: fold_setBlock_map_length)
  have dv: "dieValue ?s1 = dieValue s" by (simp add: dieValue_def fun_eq_iff)
  from P have "block (die s x0 y0) y x =
      (if (y, x) \<in> set ?cs \<and> present (blocks (ctx ?s1)) y x then dieValue ?s1 (y, x) (block ?s1 y x) else block ?s1 y x)"
    by blast
  then show "block (die s x0 y0) y x =
          (if inside s x y \<and> present (blocks (ctx s)) y x
           then dieValue s (y, x) (if y = y0 \<and> x = x0 then DEAD else block s y x)
           else if y = y0 \<and> x = x0 \<and> present (blocks (ctx s)) y x then DEAD
           else block s y x)"
    unfolding set_product_inside dv by (auto simp: cell_setCell)
qed

section \<open>Laying the mines\<close>

text \<open>The number of mines in the blocks around \<open>(x, y)\<close>.\<close>

definition minesAround :: "IPrivateData \<Rightarrow> int \<Rightarrow> int \<Rightarrow> int" where
  "minesAround s x y =
     int (length (filter (\<lambda>b. mine s (snd b) (fst b) = MINE_FLAG) (findBlocksAround s x y)))"

text \<open>Every cell of \<^verbatim>\<open>mines\<close> inside the map holds a mine or the number of mines around it.\<close>

definition counted :: "IPrivateData \<Rightarrow> bool" where
  "counted s = (\<forall>x y. inside s x y \<longrightarrow> mine s y x = MINE_FLAG \<or> mine s y x = minesAround s x y)"


lemma near_iff: "\<bar>i - y\<bar> \<le> 1 \<longleftrightarrow> i = y - 1 \<or> i = y \<or> i = y + (1::int)"
  by arith

lemma around_rows_set:
  "(i, j) \<in> set (concat (map (\<lambda>i. map (\<lambda>j. (i, j)) [x - 1, x, x + 1]) [y - 1, y, y + 1]))
     \<longleftrightarrow> \<bar>i - y\<bar> \<le> 1 \<and> \<bar>j - x\<bar> \<le> 1"
  for x y i j :: int
  unfolding near_iff by (simp only: set_concat set_map) auto

lemma around_columns_set:
  "(j, i) \<in> set (concat (map (\<lambda>i. map (\<lambda>j. (j, i)) [x - 1, x, x + 1]) [y - 1, y, y + 1]))
     \<longleftrightarrow> \<bar>i - y\<bar> \<le> 1 \<and> \<bar>j - x\<bar> \<le> 1"
  for x y i j :: int
  unfolding near_iff by (simp only: set_concat set_map) auto

lemma around_rows_distinct:
  "distinct (concat (map (\<lambda>i. map (\<lambda>j. (i, j)) [x - 1, x, x + 1]) [y - 1, y, y + 1]))"
  for x y :: int
  by simp

lemma around_columns_distinct:
  "distinct (concat (map (\<lambda>i. map (\<lambda>j. (j, i)) [x - 1, x, x + 1]) [y - 1, y, y + 1]))"
  for x y :: int
  by simp

lemma set_findBlocksAround:
  "(bx, by) \<in> set (findBlocksAround s x y) \<longleftrightarrow>
     inside s bx by \<and> (bx, by) \<noteq> (x, y) \<and> \<bar>bx - x\<bar> \<le> 1 \<and> \<bar>by - y\<bar> \<le> 1"
  unfolding findBlocksAround_def set_filter mem_Collect_eq around_columns_set prod.case
  by blast

lemma distinct_findBlocksAround: "distinct (findBlocksAround s x y)"
  unfolding findBlocksAround_def by (rule distinct_filter) (rule around_columns_distinct)

lemma findBlocksAround_frame:
  "height t = height s \<Longrightarrow> width t = width s \<Longrightarrow> findBlocksAround t x y = findBlocksAround s x y"
  by (simp add: findBlocksAround_def)

lemma length_filter_one_more:
  "distinct xs \<Longrightarrow> \<not> P a \<Longrightarrow> (\<And>b. b \<in> set xs \<Longrightarrow> Q b \<longleftrightarrow> P b \<or> b = a) \<Longrightarrow>
   length (filter Q xs) = length (filter P xs) + (if a \<in> set xs then 1 else 0)"
proof (induction xs)
  case Nil then show ?case by simp
next
  case (Cons x xs)
  from Cons.prems have d: "distinct xs" and nx: "x \<notin> set xs"
    and q: "\<And>b. b \<in> set xs \<Longrightarrow> Q b \<longleftrightarrow> P b \<or> b = a" and qx: "Q x \<longleftrightarrow> P x \<or> x = a"
    by auto
  from Cons.IH[OF d Cons.prems(2) q]
  have "length (filter Q xs) = length (filter P xs) + (if a \<in> set xs then 1 else 0)" .
  then show ?case using qx nx Cons.prems(2) by (cases "x = a") auto
qed

lemma fold_setMine_pointwise:
  assumes h: "\<And>t u. sameButMines t u \<Longrightarrow> h u = h t"
    and d: "distinct cs"
  shows "sameButMines t0 (fold (\<lambda>c t. setMine t (fst c) (snd c) (h t c (mine t (fst c) (snd c)))) cs t0)
    \<and> map length (mines (ctx (fold (\<lambda>c t. setMine t (fst c) (snd c) (h t c (mine t (fst c) (snd c)))) cs t0)))
        = map length (mines (ctx t0))
    \<and> (\<forall>y x. mine (fold (\<lambda>c t. setMine t (fst c) (snd c) (h t c (mine t (fst c) (snd c)))) cs t0) y x
         = (if (y, x) \<in> set cs \<and> present (mines (ctx t0)) y x then h t0 (y, x) (mine t0 y x)
            else mine t0 y x))"
  using d
proof (induction cs arbitrary: t0)
  case Nil then show ?case by simp
next
  case (Cons c cs)
  let ?t1 = "setMine t0 (fst c) (snd c) (h t0 c (mine t0 (fst c) (snd c)))"
  have s1: "sameButMines t0 ?t1" by simp
  from Cons.prems have dc: "distinct cs" and nc: "c \<notin> set cs" by auto
  note IH = Cons.IH[OF dc, of ?t1]
  have h1: "h ?t1 = h t0" using h[OF s1] .
  show ?case
    apply (simp only: fold_simps)
    apply (intro conjI allI)
    subgoal using IH s1 sameButMines_trans by blast
    subgoal using IH by simp
    subgoal for y x
    proof -
      have e: "(y, x) = c \<longleftrightarrow> y = fst c \<and> x = snd c" by auto
      show ?thesis using IH nc unfolding h1
        by (simp add: cell_setCell e) (use nc e in auto)
    qed
    done
qed

text \<open>The value the loop of \<^verbatim>\<open>restart\<close> around a new mine leaves in a cell that held \<open>v\<close>.\<close>

definition countUpValue :: "IPrivateData \<Rightarrow> int \<times> int \<Rightarrow> int \<Rightarrow> int" where
  "countUpValue s c v = (if \<not> inside s (snd c) (fst c) \<or> v = MINE_FLAG then v else v + 1)"

lemma countUp_result:
  shows "sameButMines s (countUp s x y)"
    and "map length (mines (ctx (countUp s x y))) = map length (mines (ctx s))"
    and "mine (countUp s x y) i j =
          (if \<bar>i - y\<bar> \<le> 1 \<and> \<bar>j - x\<bar> \<le> 1 \<and> present (mines (ctx s)) i j \<and> inside s j i \<and> mine s i j \<noteq> MINE_FLAG
           then mine s i j + 1 else mine s i j)"
proof -
  let ?cs = "concat (map (\<lambda>i. map (\<lambda>j. (i, j)) [x - 1, x, x + 1]) [y - 1, y, y + 1])"
  let ?body = "\<lambda>c t. setMine t (fst c) (snd c) (countUpValue t c (mine t (fst c) (snd c)))"
  have body: "(\<lambda>(i, j) t. if \<not> inside t j i \<or> mine t i j = MINE_FLAG then t else setMine t i j (mine t i j + 1)) = ?body"
    by (auto simp: fun_eq_iff countUpValue_def setMine_def)
  have cw: "countUp s x y = fold ?body ?cs s"
    unfolding countUp_def by (simp only: body)
  have d: "distinct ?cs" by (rule around_rows_distinct)
  have hh: "\<And>t u. sameButMines t u \<Longrightarrow> countUpValue u = countUpValue t"
    by (simp add: sameButMines_fields countUpValue_def fun_eq_iff)
  note P = fold_setMine_pointwise[of countUpValue, OF hh d, of s, folded cw]
  show "sameButMines s (countUp s x y)" using P by blast
  show "map length (mines (ctx (countUp s x y))) = map length (mines (ctx s))" using P by blast
  have m: "(i, j) \<in> set ?cs \<longleftrightarrow> \<bar>i - y\<bar> \<le> 1 \<and> \<bar>j - x\<bar> \<le> 1" by (rule around_rows_set)
  from P have "mine (countUp s x y) i j =
      (if (i, j) \<in> set ?cs \<and> present (mines (ctx s)) i j then countUpValue s (i, j) (mine s i j) else mine s i j)"
    by blast
  then show "mine (countUp s x y) i j =
          (if \<bar>i - y\<bar> \<le> 1 \<and> \<bar>j - x\<bar> \<le> 1 \<and> present (mines (ctx s)) i j \<and> inside s j i \<and> mine s i j \<noteq> MINE_FLAG
           then mine s i j + 1 else mine s i j)"
    unfolding m by (auto simp: countUpValue_def)
qed

lemma minesAround_nonneg [simp]: "0 \<le> minesAround s x y"
  by (simp add: minesAround_def)

lemma counted_nonneg: "counted s \<Longrightarrow> inside s x y \<Longrightarrow> mine s y x \<noteq> MINE_FLAG \<Longrightarrow> 0 \<le> mine s y x"
  unfolding counted_def using minesAround_nonneg[of s x y] by fastforce

lemma not_inside_mine: "shaped s \<Longrightarrow> \<not> inside s x y \<Longrightarrow> mine s y x = 0"
  by (auto simp: cell_def shaped_present)

lemma not_inside_block: "shaped s \<Longrightarrow> \<not> inside s x y \<Longrightarrow> block s y x = 0"
  by (auto simp: cell_def shaped_present)

text \<open>One round of the loop of \<^verbatim>\<open>restart\<close> that puts a mine on a free cell.\<close>

lemma putMine_step:
  assumes sh: "shaped s" and co: "counted s" and ins: "inside s x y" and free: "mine s y x \<noteq> MINE_FLAG"
  defines "t \<equiv> countUp (setMine s y x MINE_FLAG) x y"
  shows "sameButMines s t" and "shaped t" and "counted t"
    and "mine t cy cx = MINE_FLAG \<longleftrightarrow> (cx = x \<and> cy = y) \<or> mine s cy cx = MINE_FLAG"
    and "countCells (\<lambda>v. v = MINE_FLAG) (mines (ctx t)) = countCells (\<lambda>v. v = MINE_FLAG) (mines (ctx s)) + 1"
proof -
  let ?s1 = "setMine s y x MINE_FLAG"
  have sh1: "shaped ?s1" using sh by simp
  have px: "present (mines (ctx s)) y x" using shaped_present(2)[OF sh] ins by simp
  have m1: "mine ?s1 i j = (if i = y \<and> j = x then MINE_FLAG else mine s i j)" for i j
    using px by (simp add: cell_setCell)
  have fr: "sameButMines s t"
    unfolding t_def using sameButMines_trans[OF sameButMines_setMine countUp_result(1)] .
  show "sameButMines s t" by (rule fr)
  have ml: "map length (mines (ctx t)) = map length (mines (ctx s))"
    unfolding t_def by (simp add: countUp_result(2))
  show sht: "shaped t"
    using sh ml sameButMines_fields[OF fr] by (simp add: shaped_def)
  have m2: "mine t i j =
      (if i = y \<and> j = x then MINE_FLAG
       else if \<bar>i - y\<bar> \<le> 1 \<and> \<bar>j - x\<bar> \<le> 1 \<and> inside s j i \<and> mine s i j \<noteq> MINE_FLAG then mine s i j + 1
       else mine s i j)" for i j
    unfolding t_def countUp_result(3) m1 using shaped_present(2)[OF sh1, of i j]
    by auto
  show mm: "mine t cy cx = MINE_FLAG \<longleftrightarrow> (cx = x \<and> cy = y) \<or> mine s cy cx = MINE_FLAG" for cx cy
    unfolding m2 using counted_nonneg[OF co, of cx cy] by auto
  show "counted t"
    unfolding counted_def
  proof (intro allI impI)
    fix cx cy assume "inside t cx cy"
    then have ci: "inside s cx cy" using sameButMines_fields[OF fr] by simp
    show "mine t cy cx = MINE_FLAG \<or> mine t cy cx = minesAround t cx cy"
    proof (cases "mine t cy cx = MINE_FLAG")
      case True then show ?thesis by simp
    next
      case False
      then have ne: "\<not> (cx = x \<and> cy = y)" and ms: "mine s cy cx \<noteq> MINE_FLAG" using mm by auto
      from co ci ms have old: "mine s cy cx = minesAround s cx cy" by (auto simp: counted_def)
      have fb: "findBlocksAround t cx cy = findBlocksAround s cx cy"
        by (rule findBlocksAround_frame) (simp_all add: sameButMines_fields[OF fr])
      have "length (filter (\<lambda>b. mine t (snd b) (fst b) = MINE_FLAG) (findBlocksAround s cx cy))
          = length (filter (\<lambda>b. mine s (snd b) (fst b) = MINE_FLAG) (findBlocksAround s cx cy))
            + (if (x, y) \<in> set (findBlocksAround s cx cy) then 1 else 0)"
        by (rule length_filter_one_more[OF distinct_findBlocksAround]) (use free mm in auto)
      then have "minesAround t cx cy = minesAround s cx cy + (if (x, y) \<in> set (findBlocksAround s cx cy) then 1 else 0)"
        by (simp add: minesAround_def fb)
      moreover have "(x, y) \<in> set (findBlocksAround s cx cy) \<longleftrightarrow> \<bar>cy - y\<bar> \<le> 1 \<and> \<bar>cx - x\<bar> \<le> 1"
        unfolding set_findBlocksAround using ins ne by auto
      ultimately show ?thesis unfolding m2 using ne ms ci old by auto
    qed
  qed
  have "{(i, j). present (mines (ctx t)) i j \<and> mine t i j = MINE_FLAG}
      = insert (y, x) {(i, j). present (mines (ctx s)) i j \<and> mine s i j = MINE_FLAG}"
    using px by (auto simp: present_cong[OF ml] mm)
  moreover have "(y, x) \<notin> {(i, j). present (mines (ctx s)) i j \<and> mine s i j = MINE_FLAG}"
    using free by simp
  ultimately show "countCells (\<lambda>v. v = MINE_FLAG) (mines (ctx t)) = countCells (\<lambda>v. v = MINE_FLAG) (mines (ctx s)) + 1"
    unfolding countCells_card using finite_present[of "mines (ctx s)" "\<lambda>i j. mine s i j = MINE_FLAG"]
    by simp
qed

lemma putMines_counted:
  assumes "putMines s n rs = Some t" "drawn s rs" "shaped s" "counted s"
  shows "sameButMines s t \<and> shaped t \<and> counted t
    \<and> int (countCells (\<lambda>v. v = MINE_FLAG) (mines (ctx t))) = int (countCells (\<lambda>v. v = MINE_FLAG) (mines (ctx s))) + n"
  using assms
proof (induction s n rs arbitrary: t rule: putMines.induct)
  case (1 s n y x rs)
  from "1.prems"(2) have ins: "inside s x y" and rs: "drawn s rs"
    by (auto simp: drawn_def)
  show ?case
  proof (cases "n = 0")
    case True with "1.prems" show ?thesis by simp
  next
    case n: False
    show ?thesis
    proof (cases "mine s y x = MINE_FLAG")
      case True
      with n "1.prems"(1) have "putMines s n rs = Some t" by simp
      from "1.IH"(1)[OF n True this rs "1.prems"(3,4)] show ?thesis .
    next
      case False
      let ?s1 = "countUp (setMine s y x MINE_FLAG) x y"
      note st = putMine_step[OF "1.prems"(3,4) ins False]
      from False n "1.prems"(1) have p: "putMines ?s1 (n - 1) rs = Some t" by simp
      have rs1: "drawn ?s1 rs"
        using rs sameButMines_fields[OF st(1)] by (simp add: drawn_def)
      from "1.IH"(2)[OF n False p rs1 st(2,3)]
      have "sameButMines ?s1 t" "shaped t" "counted t"
        "int (countCells (\<lambda>v. v = MINE_FLAG) (mines (ctx t))) = int (countCells (\<lambda>v. v = MINE_FLAG) (mines (ctx ?s1))) + (n - 1)"
        by auto
      then show ?thesis using st(5) sameButMines_trans[OF st(1)] by simp
    qed
  qed
qed (simp_all split: if_splits)

lemma cell_replicate:
  "cell (replicate h (replicate w v)) y x = (if 0 \<le> y \<and> nat y < h \<and> 0 \<le> x \<and> nat x < w then v else 0)"
  by (auto simp: cell_def present_def)

lemma countCells_replicate:
  "countCells P (replicate h (replicate w v)) = (if P v then h * w else 0)"
  by (simp add: countCells_def map_replicate_const sum_list_replicate)

lemma restart_counted:
  assumes r: "restart s now rs = Some t" and rs: "drawn s rs"
  shows "shaped t" and "counted t"
    and "int (countCells (\<lambda>v. v = MINE_FLAG) (mines (ctx t))) = mineQuantity s"
proof -
  let ?s0 = "s\<lparr>ctx := \<lparr>blocks = replicate (nat (height s)) (replicate (nat (width s)) UNKNWON),
                  mines = replicate (nat (height s)) (replicate (nat (width s)) 0),
                  unmarkedMines = mineQuantity s,
                  startedAt = now,
                  status = PLAYING,
                  unknowns = height s * width s\<rparr>\<rparr>"
  have p: "putMines ?s0 (mineQuantity s) rs = Some t" using r by (simp add: restart_def)
  have sh: "shaped ?s0" by (simp add: shaped_def)
  have co: "counted ?s0" by (simp add: counted_def minesAround_def cell_replicate)
  have c0: "countCells (\<lambda>v. v = MINE_FLAG) (mines (ctx ?s0)) = 0"
    by (simp add: countCells_replicate)
  have d: "drawn ?s0 rs" using rs by (simp add: drawn_def)
  from putMines_counted[OF p d sh co] c0
  show "shaped t" "counted t" "int (countCells (\<lambda>v. v = MINE_FLAG) (mines (ctx t))) = mineQuantity s"
    by simp_all
qed

section \<open>The flood fill of \<^verbatim>\<open>_cleanBlock\<close>\<close>

text \<open>One block revealed by the first loop of \<^verbatim>\<open>_cleanBlock\<close>.\<close>

definition reveal :: "IPrivateData \<Rightarrow> IBlock \<Rightarrow> IPrivateData" where
  "reveal s b =
     (setBlock s (snd b) (fst b) (mine s (snd b) (fst b)))
       \<lparr>ctx := (ctx (setBlock s (snd b) (fst b) (mine s (snd b) (fst b))))
          \<lparr>unknowns := unknowns (ctx s) - 1\<rparr>\<rparr>"

lemma reveal_fields [simp]:
  "mines (ctx (reveal s b)) = mines (ctx s)"
  "unmarkedMines (ctx (reveal s b)) = unmarkedMines (ctx s)"
  "startedAt (ctx (reveal s b)) = startedAt (ctx s)"
  "status (ctx (reveal s b)) = status (ctx s)"
  "unknowns (ctx (reveal s b)) = unknowns (ctx s) - 1"
  "height (reveal s b) = height s"
  "width (reveal s b) = width s"
  "mineQuantity (reveal s b) = mineQuantity s"
  "showMinesOnlyOnFailed (reveal s b) = showMinesOnlyOnFailed s"
  "blocks (ctx (reveal s b)) = setCell (blocks (ctx s)) (snd b) (fst b) (mine s (snd b) (fst b))"
  by (simp_all add: reveal_def)

lemma cleanAround_reveal:
  "cleanAround b (s, acc) =
     (if block s (snd b) (fst b) \<noteq> UNKNWON then (s, acc)
      else (reveal s b, if mine s (snd b) (fst b) = 0 then acc @ [b] else acc))"
  by (simp add: cleanAround_def reveal_def Let_def)

lemma findBlocksAround_reveal [simp]: "findBlocksAround (reveal s b) x y = findBlocksAround s x y"
  by (rule findBlocksAround_frame) simp_all

text \<open>
  A property of states that every single reveal keeps is kept by \<^verbatim>\<open>_cleanBlock\<close>. The
  blocks in \<open>C\<close> are those \<^verbatim>\<open>_cleanBlock\<close> may be called on.
\<close>

lemma fold_cleanAround_rule:
  assumes step: "\<And>u b. I u \<Longrightarrow> inside u cx cy \<Longrightarrow> mine u cy cx = 0
        \<Longrightarrow> b \<in> set (findBlocksAround u cx cy) \<Longrightarrow> block u (snd b) (fst b) = UNKNWON
        \<Longrightarrow> I (reveal u b) \<and> (mine u (snd b) (fst b) = 0 \<longrightarrow> b \<in> C)"
  shows "fold cleanAround bs (u, acc) = (t, next) \<Longrightarrow> I u \<Longrightarrow> set acc \<subseteq> C
    \<Longrightarrow> set bs \<subseteq> set (findBlocksAround u cx cy) \<Longrightarrow> inside u cx cy \<Longrightarrow> mine u cy cx = 0
    \<Longrightarrow> I t \<and> set next \<subseteq> C"
proof (induction bs arbitrary: u acc)
  case Nil then show ?case by simp
next
  case (Cons b bs)
  show ?case
  proof (cases "block u (snd b) (fst b) = UNKNWON")
    case False
    with Cons.prems(1) have "fold cleanAround bs (u, acc) = (t, next)"
      by (simp add: cleanAround_reveal)
    from Cons.IH[OF this Cons.prems(2,3) _ Cons.prems(5,6)] Cons.prems(4) show ?thesis by simp
  next
    case True
    let ?acc = "if mine u (snd b) (fst b) = 0 then acc @ [b] else acc"
    from Cons.prems(4) have bin: "b \<in> set (findBlocksAround u cx cy)" by simp
    note st = step[OF Cons.prems(2,5,6) bin True]
    from True Cons.prems(1) have f: "fold cleanAround bs (reveal u b, ?acc) = (t, next)"
      by (simp add: cleanAround_reveal)
    have a: "set ?acc \<subseteq> C" using st Cons.prems(3) by auto
    show ?thesis
      by (rule Cons.IH[OF f _ a]) (use st Cons.prems in simp_all)
  qed
qed

lemma cleanBlock_rule:
  assumes step: "\<And>u cx cy b. I u \<Longrightarrow> (cx, cy) \<in> C \<Longrightarrow> inside u cx cy \<Longrightarrow> mine u cy cx = 0
        \<Longrightarrow> b \<in> set (findBlocksAround u cx cy) \<Longrightarrow> block u (snd b) (fst b) = UNKNWON
        \<Longrightarrow> I (reveal u b) \<and> (mine u (snd b) (fst b) = 0 \<longrightarrow> b \<in> C)"
  shows "I u \<Longrightarrow> (x, y) \<in> C \<Longrightarrow> I (cleanBlock u x y)"
    and "I u \<Longrightarrow> set bs \<subseteq> C \<Longrightarrow> I (cleanNext u bs)"
proof (induction u x y and u bs rule: cleanBlock_cleanNext.induct)
  case (1 s x y)
  show ?case
  proof (cases "\<not> inside s x y \<or> mine s y x \<noteq> 0")
    case True
    then show ?thesis using "1.prems" by auto
  next
    case False
    obtain t nextBlks where f: "fold cleanAround (findBlocksAround s x y) (s, []) = (t, nextBlks)"
      by (cases "fold cleanAround (findBlocksAround s x y) (s, [])")
    from False f have e: "cleanBlock s x y = cleanNext t nextBlks" by simp
    have "I t \<and> set nextBlks \<subseteq> C"
    proof (rule fold_cleanAround_rule[where I = I and cx = x and cy = y and C = C, OF _ f])
      fix u b
      assume "I u" "inside u x y" "mine u y x = 0" "b \<in> set (findBlocksAround u x y)"
        "block u (snd b) (fst b) = UNKNWON"
      then show "I (reveal u b) \<and> (mine u (snd b) (fst b) = 0 \<longrightarrow> b \<in> C)"
        by (rule step[OF _ "1.prems"(2)])
    next
      show "I s" by (rule "1.prems"(1))
      show "set [] \<subseteq> C" by simp
      show "set (findBlocksAround s x y) \<subseteq> set (findBlocksAround s x y)" by simp
      show "inside s x y" using False by blast
      show "mine s y x = 0" using False by blast
    qed
    then show ?thesis
      unfolding e using "1.IH"[OF _ _ f[symmetric]] False by simp
  qed
next
  case (2 s)
  then show ?case by simp
next
  case (3 s b bs)
  from "3.prems" have "(fst b, snd b) \<in> C" "set bs \<subseteq> C" by auto
  with "3.IH" "3.prems"(1) show ?case by simp
qed

text \<open>Two states that differ in their blocks and in \<open>unknowns\<close> at most.\<close>

definition sameButBoard :: "IPrivateData \<Rightarrow> IPrivateData \<Rightarrow> bool" where
  "sameButBoard s t = (t = s\<lparr>ctx := (ctx s)\<lparr>blocks := blocks (ctx t), unknowns := unknowns (ctx t)\<rparr>\<rparr>)"

lemma sameButBoard_refl [simp]: "sameButBoard s s"
  by (simp add: sameButBoard_def)

lemma sameButBoard_reveal [simp]: "sameButBoard s (reveal s b)"
  by (simp add: sameButBoard_def reveal_def setBlock_def)

lemma sameButBoard_iff:
  "sameButBoard s t \<longleftrightarrow>
     mines (ctx t) = mines (ctx s) \<and> unmarkedMines (ctx t) = unmarkedMines (ctx s)
     \<and> startedAt (ctx t) = startedAt (ctx s) \<and> status (ctx t) = status (ctx s)
     \<and> height t = height s \<and> width t = width s
     \<and> mineQuantity t = mineQuantity s \<and> showMinesOnlyOnFailed t = showMinesOnlyOnFailed s"
proof
  assume "sameButBoard s t"
  then have "t = s\<lparr>ctx := (ctx s)\<lparr>blocks := blocks (ctx t), unknowns := unknowns (ctx t)\<rparr>\<rparr>"
    by (simp add: sameButBoard_def)
  then show "mines (ctx t) = mines (ctx s) \<and> unmarkedMines (ctx t) = unmarkedMines (ctx s)
     \<and> startedAt (ctx t) = startedAt (ctx s) \<and> status (ctx t) = status (ctx s)
     \<and> height t = height s \<and> width t = width s
     \<and> mineQuantity t = mineQuantity s \<and> showMinesOnlyOnFailed t = showMinesOnlyOnFailed s"
    by (metis IContext.select_convs IContext.surjective IContext.update_convs(1,6) IPrivateData.select_convs IPrivateData.surjective IPrivateData.update_convs(1))
next
  assume a: "mines (ctx t) = mines (ctx s) \<and> unmarkedMines (ctx t) = unmarkedMines (ctx s)
     \<and> startedAt (ctx t) = startedAt (ctx s) \<and> status (ctx t) = status (ctx s)
     \<and> height t = height s \<and> width t = width s
     \<and> mineQuantity t = mineQuantity s \<and> showMinesOnlyOnFailed t = showMinesOnlyOnFailed s"
  then have "ctx t = (ctx s)\<lparr>blocks := blocks (ctx t), unknowns := unknowns (ctx t)\<rparr>"
    by (intro IContext.equality) simp_all
  with a show "sameButBoard s t"
    unfolding sameButBoard_def by (intro IPrivateData.equality) simp_all
qed

lemma sameButBoard_trans: "sameButBoard s t \<Longrightarrow> sameButBoard t u \<Longrightarrow> sameButBoard s u"
  by (simp add: sameButBoard_iff)

lemma sameButBoard_fields:
  assumes "sameButBoard s t"
  shows "mines (ctx t) = mines (ctx s)" "unmarkedMines (ctx t) = unmarkedMines (ctx s)"
    "startedAt (ctx t) = startedAt (ctx s)" "status (ctx t) = status (ctx s)"
    "height t = height s" "width t = width s"
    "mineQuantity t = mineQuantity s" "showMinesOnlyOnFailed t = showMinesOnlyOnFailed s"
  using assms by (simp_all add: sameButBoard_iff)

lemma zero_around:
  assumes "counted s" "inside s cx cy" "mine s cy cx = 0" "b \<in> set (findBlocksAround s cx cy)"
  shows "inside s (fst b) (snd b)" "0 \<le> mine s (snd b) (fst b)"
proof -
  show i: "inside s (fst b) (snd b)"
    using assms(4) set_findBlocksAround[of "fst b" "snd b" s cx cy] by simp
  from assms(1)[unfolded counted_def, rule_format, OF assms(2)] assms(3)
  have "minesAround s cx cy = 0" by simp
  then have "filter (\<lambda>b. mine s (snd b) (fst b) = MINE_FLAG) (findBlocksAround s cx cy) = []"
    by (simp add: minesAround_def)
  with assms(4) have "mine s (snd b) (fst b) \<noteq> MINE_FLAG" by (simp add: filter_empty_conv)
  with counted_nonneg[OF assms(1) i] show "0 \<le> mine s (snd b) (fst b)" by simp
qed

text \<open>
  The states \<^verbatim>\<open>_cleanBlock\<close> goes through from \<open>s\<close>: blocks that were \<open>UNKNWON\<close> have been
  replaced by their mine count, all of them in \<open>R\<close>, and \<open>unknowns\<close> was decreased once
  for each.
\<close>

definition flooding :: "IBlock set \<Rightarrow> IPrivateData \<Rightarrow> IPrivateData \<Rightarrow> bool" where
  "flooding R s u =
     (sameButBoard s u \<and> map length (blocks (ctx u)) = map length (blocks (ctx s))
      \<and> (\<forall>y x. block u y x = block s y x
                \<or> ((x, y) \<in> R \<and> block s y x = UNKNWON \<and> block u y x = mine s y x \<and> 0 \<le> mine s y x))
      \<and> unknowns (ctx u) = unknowns (ctx s) - int (card {(y, x). block u y x \<noteq> block s y x}))"

lemma flooding_refl: "flooding R s s"
  by (simp add: flooding_def)

lemma absent_cell: "\<not> present g y x \<Longrightarrow> cell g y x = 0"
  by (simp add: cell_def)

lemma finite_changed:
  assumes "map length (blocks (ctx u)) = map length (blocks (ctx s))"
  shows "finite {(y, x). block u y x \<noteq> block s y x}"
proof (rule finite_subset)
  show "{(y, x). block u y x \<noteq> block s y x} \<subseteq> {(y, x). present (blocks (ctx s)) y x \<and> True}"
    using present_cong[OF assms] by (auto simp: cell_def)
  show "finite {(y, x). present (blocks (ctx s)) y x \<and> True}" by (rule finite_present)
qed

lemma flooding_step:
  assumes co: "counted s"
    and closed: "\<And>cx cy b. (cx, cy) \<in> R \<Longrightarrow> inside s cx cy \<Longrightarrow> mine s cy cx = 0
        \<Longrightarrow> b \<in> set (findBlocksAround s cx cy) \<Longrightarrow> block s (snd b) (fst b) = UNKNWON \<Longrightarrow> b \<in> R"
    and fl: "flooding R s u" and c: "(cx, cy) \<in> R" and ins: "inside u cx cy" and z: "mine u cy cx = 0"
    and b: "b \<in> set (findBlocksAround u cx cy)" and un: "block u (snd b) (fst b) = UNKNWON"
  shows "flooding R s (reveal u b) \<and> (mine u (snd b) (fst b) = 0 \<longrightarrow> b \<in> R)"
proof -
  from fl have sb: "sameButBoard s u" and ml: "map length (blocks (ctx u)) = map length (blocks (ctx s))"
    and pw: "\<And>y x. block u y x = block s y x
                \<or> ((x, y) \<in> R \<and> block s y x = UNKNWON \<and> block u y x = mine s y x \<and> 0 \<le> mine s y x)"
    and uk: "unknowns (ctx u) = unknowns (ctx s) - int (card {(y, x). block u y x \<noteq> block s y x})"
    by (auto simp: flooding_def)
  note f = sameButBoard_fields[OF sb]
  have fb: "findBlocksAround u cx cy = findBlocksAround s cx cy"
    by (rule findBlocksAround_frame) (simp_all add: f)
  have ins': "inside s cx cy" using ins f by simp
  have z': "mine s cy cx = 0" using z f by simp
  have b': "b \<in> set (findBlocksAround s cx cy)" using b fb by simp
  note za = zero_around[OF co ins' z' b']
  have un': "block s (snd b) (fst b) = UNKNWON" using pw[of "snd b" "fst b"] un by auto
  have bR: "b \<in> R" by (rule closed[OF c ins' z' b' un'])
  have pr: "present (blocks (ctx u)) (snd b) (fst b)"
    by (rule cell_nonzero_present) (simp add: un)
  let ?u = "reveal u b"
  have blk: "block ?u y x = (if y = snd b \<and> x = fst b then mine s y x else block u y x)" for y x
    using pr by (simp add: cell_setCell f)
  have ch: "{(y, x). block ?u y x \<noteq> block s y x} = insert (snd b, fst b) {(y, x). block u y x \<noteq> block s y x}"
    unfolding blk using un un' za(2) by auto
  have nin: "(snd b, fst b) \<notin> {(y, x). block u y x \<noteq> block s y x}" using un un' by simp
  have "card {(y, x). block ?u y x \<noteq> block s y x} = card {(y, x). block u y x \<noteq> block s y x} + 1"
    unfolding ch using finite_changed[OF ml] nin by simp
  then have uk': "unknowns (ctx ?u) = unknowns (ctx s) - int (card {(y, x). block ?u y x \<noteq> block s y x})"
    using uk by simp
  have pw': "block ?u y x = block s y x
                \<or> ((x, y) \<in> R \<and> block s y x = UNKNWON \<and> block ?u y x = mine s y x \<and> 0 \<le> mine s y x)" for y x
    unfolding blk using pw[of y x] bR un' za(2) by auto
  have "flooding R s ?u"
    unfolding flooding_def using sameButBoard_trans[OF sb sameButBoard_reveal] ml pw' uk'
    by simp
  with bR show ?thesis by simp
qed

lemma cleanBlock_flooding:
  assumes co: "counted s"
    and closed: "\<And>cx cy b. (cx, cy) \<in> R \<Longrightarrow> inside s cx cy \<Longrightarrow> mine s cy cx = 0
        \<Longrightarrow> b \<in> set (findBlocksAround s cx cy) \<Longrightarrow> block s (snd b) (fst b) = UNKNWON \<Longrightarrow> b \<in> R"
  shows "flooding R s u \<Longrightarrow> (x, y) \<in> R \<Longrightarrow> flooding R s (cleanBlock u x y)"
    and "flooding R s u \<Longrightarrow> set bs \<subseteq> R \<Longrightarrow> flooding R s (cleanNext u bs)"
proof -
  have step: "\<And>u cx cy b. flooding R s u \<Longrightarrow> (cx, cy) \<in> R \<Longrightarrow> inside u cx cy \<Longrightarrow> mine u cy cx = 0
        \<Longrightarrow> b \<in> set (findBlocksAround u cx cy) \<Longrightarrow> block u (snd b) (fst b) = UNKNWON
        \<Longrightarrow> flooding R s (reveal u b) \<and> (mine u (snd b) (fst b) = 0 \<longrightarrow> b \<in> R)"
    by (rule flooding_step[OF co closed])
  show "flooding R s u \<Longrightarrow> (x, y) \<in> R \<Longrightarrow> flooding R s (cleanBlock u x y)"
    by (rule cleanBlock_rule(1)[where I = "flooding R s" and C = R, OF step])
  show "flooding R s u \<Longrightarrow> set bs \<subseteq> R \<Longrightarrow> flooding R s (cleanNext u bs)"
    by (rule cleanBlock_rule(2)[where I = "flooding R s" and C = R, OF step])
qed

lemma counted_frame:
  assumes "mines (ctx t) = mines (ctx s)" "height t = height s" "width t = width s"
  shows "counted t = counted s"
proof -
  have "findBlocksAround t x y = findBlocksAround s x y" for x y
    by (rule findBlocksAround_frame) (simp_all add: assms)
  then show ?thesis by (simp add: counted_def minesAround_def assms)
qed

text \<open>No block around \<open>(x, y)\<close> reads \<open>UNKNWON\<close>.\<close>

definition closedAround :: "IPrivateData \<Rightarrow> int \<Rightarrow> int \<Rightarrow> bool" where
  "closedAround u x y = (\<forall>b \<in> set (findBlocksAround u x y). block u (snd b) (fst b) \<noteq> UNKNWON)"

text \<open>
  From \<open>u\<close> to \<open>t\<close> no block went back to \<open>UNKNWON\<close>, and around every block with no mine
  around it that was revealed on the way nothing is left \<open>UNKNWON\<close>.
\<close>

definition flooded :: "IPrivateData \<Rightarrow> IPrivateData \<Rightarrow> bool" where
  "flooded u t =
     (sameButBoard u t
      \<and> (\<forall>y x. block u y x \<noteq> UNKNWON \<longrightarrow> block t y x \<noteq> UNKNWON)
      \<and> (\<forall>y x. block u y x = UNKNWON \<and> block t y x \<noteq> UNKNWON \<and> mine u y x = 0 \<longrightarrow> closedAround t x y))"

lemma flooded_refl: "flooded u u"
  by (auto simp: flooded_def)

lemma closedAround_mono:
  assumes "closedAround u x y" "sameButBoard u t" "\<forall>y x. block u y x \<noteq> UNKNWON \<longrightarrow> block t y x \<noteq> UNKNWON"
  shows "closedAround t x y"
proof -
  have "findBlocksAround t x y = findBlocksAround u x y"
    by (rule findBlocksAround_frame) (simp_all add: sameButBoard_fields[OF assms(2)])
  with assms(1,3) show ?thesis by (simp add: closedAround_def)
qed

lemma flooded_trans:
  assumes "flooded u t" "flooded t v"
  shows "flooded u v"
proof -
  from assms have sb: "sameButBoard u t" "sameButBoard t v"
    and m1: "\<forall>y x. block u y x \<noteq> UNKNWON \<longrightarrow> block t y x \<noteq> UNKNWON"
    and m2: "\<forall>y x. block t y x \<noteq> UNKNWON \<longrightarrow> block v y x \<noteq> UNKNWON"
    and c1: "\<And>y x. block u y x = UNKNWON \<Longrightarrow> block t y x \<noteq> UNKNWON \<Longrightarrow> mine u y x = 0 \<Longrightarrow> closedAround t x y"
    and c2: "\<And>y x. block t y x = UNKNWON \<Longrightarrow> block v y x \<noteq> UNKNWON \<Longrightarrow> mine t y x = 0 \<Longrightarrow> closedAround v x y"
    by (auto simp: flooded_def)
  have "closedAround v x y" if a: "block u y x = UNKNWON" "block v y x \<noteq> UNKNWON" "mine u y x = 0" for y x
  proof (cases "block t y x = UNKNWON")
    case True
    show ?thesis by (rule c2[OF True a(2)]) (simp add: sameButBoard_fields[OF sb(1)] a(3))
  next
    case False
    from closedAround_mono[OF c1[OF a(1) False a(3)] sb(2) m2] show ?thesis .
  qed
  with sameButBoard_trans[OF sb] m1 m2 show ?thesis by (simp add: flooded_def)
qed

lemma fold_cleanAround_closed:
  "counted u \<Longrightarrow> inside u cx cy \<Longrightarrow> mine u cy cx = 0
   \<Longrightarrow> set bs \<subseteq> set (findBlocksAround u cx cy) \<Longrightarrow> fold cleanAround bs (u, acc) = (t, next)
   \<Longrightarrow> sameButBoard u t
     \<and> (\<forall>b \<in> set bs. block t (snd b) (fst b) \<noteq> UNKNWON)
     \<and> (\<forall>y x. block u y x \<noteq> UNKNWON \<longrightarrow> block t y x \<noteq> UNKNWON)
     \<and> (\<forall>y x. block u y x = UNKNWON \<and> block t y x \<noteq> UNKNWON \<and> mine u y x = 0 \<longrightarrow> (x, y) \<in> set next)
     \<and> set acc \<subseteq> set next
     \<and> (\<forall>b \<in> set next - set acc. inside u (fst b) (snd b) \<and> mine u (snd b) (fst b) = 0)"
proof (induction bs arbitrary: u acc)
  case Nil then show ?case by auto
next
  case (Cons b bs)
  from Cons.prems(4) have bin: "b \<in> set (findBlocksAround u cx cy)"
    and bs: "set bs \<subseteq> set (findBlocksAround u cx cy)" by simp_all
  show ?case
  proof (cases "block u (snd b) (fst b) = UNKNWON")
    case False
    with Cons.prems(5) have f: "fold cleanAround bs (u, acc) = (t, next)"
      by (simp add: cleanAround_reveal)
    from Cons.IH[OF Cons.prems(1,2,3) bs f] False show ?thesis by simp
  next
    case True
    let ?u = "reveal u b"
    let ?acc = "if mine u (snd b) (fst b) = 0 then acc @ [b] else acc"
    note za = zero_around[OF Cons.prems(1,2,3) bin]
    have pr: "present (blocks (ctx u)) (snd b) (fst b)"
      by (rule cell_nonzero_present) (simp add: True)
    have blk: "block ?u y x = (if y = snd b \<and> x = fst b then mine u y x else block u y x)" for y x
      using pr by (simp add: cell_setCell)
    from True Cons.prems(5) have f: "fold cleanAround bs (?u, ?acc) = (t, next)"
      by (simp add: cleanAround_reveal)
    have co: "counted ?u" using Cons.prems(1) counted_frame[of ?u u] by simp
    have IH: "sameButBoard ?u t
     \<and> (\<forall>b \<in> set bs. block t (snd b) (fst b) \<noteq> UNKNWON)
     \<and> (\<forall>y x. block ?u y x \<noteq> UNKNWON \<longrightarrow> block t y x \<noteq> UNKNWON)
     \<and> (\<forall>y x. block ?u y x = UNKNWON \<and> block t y x \<noteq> UNKNWON \<and> mine ?u y x = 0 \<longrightarrow> (x, y) \<in> set next)
     \<and> set ?acc \<subseteq> set next
     \<and> (\<forall>b \<in> set next - set ?acc. inside ?u (fst b) (snd b) \<and> mine ?u (snd b) (fst b) = 0)"
      by (rule Cons.IH[OF co _ _ _ f]) (use Cons.prems(2,3) bs in simp_all)
    from IH have i1: "sameButBoard ?u t" by blast
    from IH have i2: "\<forall>b \<in> set bs. block t (snd b) (fst b) \<noteq> UNKNWON" by blast
    from IH have c3: "\<forall>y x. block ?u y x \<noteq> UNKNWON \<longrightarrow> block t y x \<noteq> UNKNWON" by blast
    from IH have c4: "\<forall>y x. block ?u y x = UNKNWON \<and> block t y x \<noteq> UNKNWON \<and> mine ?u y x = 0 \<longrightarrow> (x, y) \<in> set next"
      by blast
    from IH have i5: "set ?acc \<subseteq> set next" by blast
    from IH have c6: "\<forall>b \<in> set next - set ?acc. inside ?u (fst b) (snd b) \<and> mine ?u (snd b) (fst b) = 0"
      by blast
    have i6: "inside u (fst c) (snd c) \<and> mine u (snd c) (fst c) = 0" if "c \<in> set next" "c \<notin> set ?acc" for c
    proof -
      from c6 that have "inside ?u (fst c) (snd c) \<and> mine ?u (snd c) (fst c) = 0" by blast
      then show ?thesis by simp
    qed
    have bt: "block t (snd b) (fst b) \<noteq> UNKNWON"
      using c3[unfolded blk, rule_format, of "snd b" "fst b"] za(2) by simp
    have mono: "block t y x \<noteq> UNKNWON" if "block u y x \<noteq> UNKNWON" for y x
      using c3[unfolded blk, rule_format, of y x] that za(2) by (cases "y = snd b \<and> x = fst b") auto
    have new: "(x, y) \<in> set next" if a: "block u y x = UNKNWON" "block t y x \<noteq> UNKNWON" "mine u y x = 0" for y x
    proof (cases "y = snd b \<and> x = fst b")
      case True
      then have "b = (x, y)" by auto
      with a(3) i5 show ?thesis by auto
    next
      case False
      have m: "mine ?u y x = mine u y x" by simp
      from c4[unfolded blk m, rule_format, of y x] False a show ?thesis by simp
    qed
    have acc: "set acc \<subseteq> set next" using i5 by (auto split: if_splits)
    have zs: "inside u (fst c) (snd c) \<and> mine u (snd c) (fst c) = 0" if "c \<in> set next" "c \<notin> set acc" for c
    proof (cases "c \<in> set ?acc")
      case True
      with that(2) have "c = b" "mine u (snd b) (fst b) = 0" by (auto split: if_splits)
      with za(1) show ?thesis by simp
    next
      case False
      from i6[OF that(1) False] show ?thesis .
    qed
    from sameButBoard_trans[OF sameButBoard_reveal i1] i2 bt mono new acc zs
    show ?thesis by auto
  qed
qed

lemma cleanBlock_flooded:
  shows "counted u \<Longrightarrow>
      flooded u (cleanBlock u x y)
      \<and> (inside u x y \<and> mine u y x = 0 \<longrightarrow> closedAround (cleanBlock u x y) x y)"
    and "counted u \<Longrightarrow> \<forall>b \<in> set bs. inside u (fst b) (snd b) \<and> mine u (snd b) (fst b) = 0 \<Longrightarrow>
      flooded u (cleanNext u bs)
      \<and> (\<forall>b \<in> set bs. closedAround (cleanNext u bs) (fst b) (snd b))"
proof (induction u x y and u bs rule: cleanBlock_cleanNext.induct)
  case (1 s x y)
  show ?case
  proof (cases "\<not> inside s x y \<or> mine s y x \<noteq> 0")
    case True
    then have "cleanBlock s x y = s" by auto
    with True flooded_refl[of s] show ?thesis by auto
  next
    case False
    then have ins: "inside s x y" and z: "mine s y x = 0" by blast+
    obtain t nextBlks where f: "fold cleanAround (findBlocksAround s x y) (s, []) = (t, nextBlks)"
      by (cases "fold cleanAround (findBlocksAround s x y) (s, [])")
    from False f have e: "cleanBlock s x y = cleanNext t nextBlks" by simp
    note F = fold_cleanAround_closed[OF "1.prems" ins z subset_refl f]
    from F have sb: "sameButBoard s t" by blast
    from F have all: "\<forall>b \<in> set (findBlocksAround s x y). block t (snd b) (fst b) \<noteq> UNKNWON" by blast
    from F have mono: "\<forall>y x. block s y x \<noteq> UNKNWON \<longrightarrow> block t y x \<noteq> UNKNWON" by blast
    from F have new: "\<And>y x. block s y x = UNKNWON \<Longrightarrow> block t y x \<noteq> UNKNWON \<Longrightarrow> mine s y x = 0 \<Longrightarrow> (x, y) \<in> set nextBlks"
      by blast
    from F have zs: "\<forall>b \<in> set nextBlks - set []. inside s (fst b) (snd b) \<and> mine s (snd b) (fst b) = 0" by blast
    note fs = sameButBoard_fields[OF sb]
    have co: "counted t" using "1.prems" counted_frame[of t s] fs by simp
    have zt: "\<forall>b \<in> set nextBlks. inside t (fst b) (snd b) \<and> mine t (snd b) (fst b) = 0"
      using zs fs by simp
    from "1.IH"[OF _ _ f[symmetric] co zt] False
    have IH: "flooded t (cleanNext t nextBlks)"
      and cl: "\<forall>b \<in> set nextBlks. closedAround (cleanNext t nextBlks) (fst b) (snd b)"
      by auto
    let ?v = "cleanNext t nextBlks"
    from IH have sb2: "sameButBoard t ?v"
      and mono2: "\<forall>y x. block t y x \<noteq> UNKNWON \<longrightarrow> block ?v y x \<noteq> UNKNWON"
      and new2: "\<And>y x. block t y x = UNKNWON \<Longrightarrow> block ?v y x \<noteq> UNKNWON \<Longrightarrow> mine t y x = 0 \<Longrightarrow> closedAround ?v x y"
      by (auto simp: flooded_def)
    have ct: "closedAround t x y"
      unfolding closedAround_def using all findBlocksAround_frame[of t s x y] fs by simp
    have c1: "closedAround ?v x y" by (rule closedAround_mono[OF ct sb2 mono2])
    have c2: "closedAround ?v x' y'" if a: "block s y' x' = UNKNWON" "block ?v y' x' \<noteq> UNKNWON" "mine s y' x' = 0" for y' x'
    proof (cases "block t y' x' = UNKNWON")
      case True
      show ?thesis by (rule new2[OF True a(2)]) (simp add: fs a(3))
    next
      case False
      from new[OF a(1) False a(3)] cl show ?thesis by auto
    qed
    have "flooded s ?v"
      unfolding flooded_def using sameButBoard_trans[OF sb sb2] mono mono2 c2 by blast
    with c1 show ?thesis unfolding e by simp
  qed
next
  case (2 s)
  then show ?case using flooded_refl[of s] by simp
next
  case (3 s b bs)
  let ?u = "cleanBlock s (fst b) (snd b)"
  let ?v = "cleanNext ?u bs"
  from "3.prems"(2) have bz: "inside s (fst b) (snd b) \<and> mine s (snd b) (fst b) = 0"
    and bsz: "\<forall>c \<in> set bs. inside s (fst c) (snd c) \<and> mine s (snd c) (fst c) = 0" by simp_all
  from "3.IH"(1)[OF "3.prems"(1)] bz
  have f1: "flooded s ?u" and c1: "closedAround ?u (fst b) (snd b)" by simp_all
  from f1 have sb: "sameButBoard s ?u" by (simp add: flooded_def)
  note fs = sameButBoard_fields[OF sb]
  have co: "counted ?u" using "3.prems"(1) counted_frame[of ?u s] fs by simp
  have bsz': "\<forall>c \<in> set bs. inside ?u (fst c) (snd c) \<and> mine ?u (snd c) (fst c) = 0"
    using bsz fs by simp
  from "3.IH"(2)[OF co bsz']
  have f2: "flooded ?u ?v" and c2: "\<forall>c \<in> set bs. closedAround ?v (fst c) (snd c)" by simp_all
  from f2 have sb2: "sameButBoard ?u ?v"
    and mono2: "\<forall>y x. block ?u y x \<noteq> UNKNWON \<longrightarrow> block ?v y x \<noteq> UNKNWON"
    by (simp_all add: flooded_def)
  have "closedAround ?v (fst b) (snd b)" by (rule closedAround_mono[OF c1 sb2 mono2])
  with flooded_trans[OF f1 f2] c2 show ?case by simp
qed

text \<open>
  The blocks a sweep of \<open>(x, y)\<close> reveals, as the specification describes them: the block
  itself and, from every block of the set with no mine around it, the blocks around it
  that read \<open>UNKNWON\<close>.
\<close>

inductive_set floodSet :: "IPrivateData \<Rightarrow> int \<Rightarrow> int \<Rightarrow> IBlock set"
  for s :: IPrivateData and x :: int and y :: int where
  origin: "(x, y) \<in> floodSet s x y"
| around: "(cx, cy) \<in> floodSet s x y \<Longrightarrow> mine s cy cx = 0
    \<Longrightarrow> b \<in> set (findBlocksAround s cx cy) \<Longrightarrow> block s (snd b) (fst b) = UNKNWON
    \<Longrightarrow> b \<in> floodSet s x y"

lemma floodSet_cells:
  assumes co: "counted s" and ins: "inside s x y" and un: "block s y x = UNKNWON" and nm: "mine s y x \<noteq> MINE_FLAG"
  shows "c \<in> floodSet s x y \<Longrightarrow>
    inside s (fst c) (snd c) \<and> block s (snd c) (fst c) = UNKNWON \<and> 0 \<le> mine s (snd c) (fst c)"
proof (induction rule: floodSet.induct)
  case origin
  then show ?case using ins un counted_nonneg[OF co ins nm] by simp
next
  case (around cx cy b)
  then have "inside s cx cy" by simp
  from zero_around[OF co this around.hyps(2,3)] around.hyps(4) show ?case by simp
qed

lemma finite_inside: "finite {c. inside s (fst c) (snd c)}"
proof -
  have "{c. inside s (fst c) (snd c)} \<subseteq> {0..<width s} \<times> {0..<height s}"
    by auto
  then show ?thesis by (rule finite_subset) simp
qed

lemma finite_floodSet:
  assumes "counted s" "inside s x y" "block s y x = UNKNWON" "mine s y x \<noteq> MINE_FLAG"
  shows "finite (floodSet s x y)"
  by (rule finite_subset[OF _ finite_inside[of s]]) (use floodSet_cells[OF assms] in auto)

lemma card_swapped: "card {(y, x). (x, y) \<in> A} = card A"
proof -
  have "{(y, x). (x, y) \<in> A} = prod.swap ` A" by auto
  then show ?thesis by (simp add: card_image)
qed

lemma sweep_floods:
  assumes sh: "shaped s" and co: "counted s" and ins: "inside s x y"
    and un: "block s y x = UNKNWON" and nm: "mine s y x \<noteq> MINE_FLAG"
  defines "t \<equiv> cleanBlock (setBlock s y x (mine s y x)) x y"
  shows "sameButBoard s t"
    and "map length (blocks (ctx t)) = map length (blocks (ctx s))"
    and "block t cy cx = (if (cx, cy) \<in> floodSet s x y then mine s cy cx else block s cy cx)"
    and "unknowns (ctx t) - 1 = unknowns (ctx s) - int (card (floodSet s x y))"
proof -
  let ?R = "floodSet s x y"
  let ?t1 = "setBlock s y x (mine s y x)"
  note cells = floodSet_cells[OF co ins un nm]
  have pr: "present (blocks (ctx s)) y x" using shaped_present(1)[OF sh] ins by simp
  have b1: "block ?t1 cy cx = (if cy = y \<and> cx = x then mine s y x else block s cy cx)" for cy cx
    using pr by (simp add: cell_setCell)
  have m0: "0 \<le> mine s y x" by (rule counted_nonneg[OF co ins nm])
  have co1: "counted ?t1" using co counted_frame[of ?t1 s] by simp
  have fb1: "findBlocksAround ?t1 cx cy = findBlocksAround s cx cy" for cx cy
    by (rule findBlocksAround_frame) simp_all
  have closed: "b \<in> ?R" if "(cx, cy) \<in> ?R" "inside ?t1 cx cy" "mine ?t1 cy cx = 0"
      "b \<in> set (findBlocksAround ?t1 cx cy)" "block ?t1 (snd b) (fst b) = UNKNWON" for cx cy b
  proof -
    from that(5) m0 have u: "block s (snd b) (fst b) = UNKNWON"
      unfolding b1 by (auto split: if_splits)
    from that(3) have z: "mine s cy cx = 0" by simp
    from that(4) have n: "b \<in> set (findBlocksAround s cx cy)" unfolding fb1 .
    show ?thesis by (rule floodSet.around[OF that(1) z n u])
  qed
  have fl: "flooding ?R ?t1 t"
    unfolding t_def
    by (rule cleanBlock_flooding(1)[OF co1 closed flooding_refl floodSet.origin])
  then have sb1: "sameButBoard ?t1 t"
    and ml1: "map length (blocks (ctx t)) = map length (blocks (ctx ?t1))"
    and pw: "\<And>cy cx. block t cy cx = block ?t1 cy cx
        \<or> ((cx, cy) \<in> ?R \<and> block ?t1 cy cx = UNKNWON \<and> block t cy cx = mine ?t1 cy cx \<and> 0 \<le> mine ?t1 cy cx)"
    and uk: "unknowns (ctx t) = unknowns (ctx ?t1) - int (card {(cy, cx). block t cy cx \<noteq> block ?t1 cy cx})"
    by (auto simp: flooding_def)
  have sb0: "sameButBoard s ?t1" by (simp add: sameButBoard_iff)
  show "sameButBoard s t" by (rule sameButBoard_trans[OF sb0 sb1])
  show "map length (blocks (ctx t)) = map length (blocks (ctx s))" using ml1 by simp
  from cleanBlock_flooded(1)[OF co1, of x y]
  have fd: "flooded ?t1 t" and c0: "mine s y x = 0 \<Longrightarrow> closedAround t x y"
    unfolding t_def using ins by simp_all
  from fd have
    newc: "\<And>cy cx. block ?t1 cy cx = UNKNWON \<Longrightarrow> block t cy cx \<noteq> UNKNWON \<Longrightarrow> mine s cy cx = 0 \<Longrightarrow> closedAround t cx cy"
    by (auto simp: flooded_def)
  have fbt: "findBlocksAround t cx cy = findBlocksAround s cx cy" for cx cy
    by (rule findBlocksAround_frame) (simp_all add: sameButBoard_fields[OF sb1])
  have orig: "block t y x = mine s y x"
    using pw[of y x] m0 unfolding b1 by auto
  have compl: "c \<in> ?R \<Longrightarrow> block t (snd c) (fst c) = mine s (snd c) (fst c)" for c
  proof (induction rule: floodSet.induct)
    case origin
    then show ?case using orig by simp
  next
    case (around cx cy b)
    have cl: "closedAround t cx cy"
    proof (cases "cy = y \<and> cx = x")
      case True
      with around.hyps(2) c0 show ?thesis by simp
    next
      case False
      from cells[OF around.hyps(1)] have "block s cy cx = UNKNWON" by simp
      with False have "block ?t1 cy cx = UNKNWON" unfolding b1 by auto
      moreover from around.IH around.hyps(2) have "block t cy cx \<noteq> UNKNWON" by simp
      ultimately show ?thesis using around.hyps(2) by (rule newc)
    qed
    with around.hyps(3) have nb: "block t (snd b) (fst b) \<noteq> UNKNWON"
      by (simp add: closedAround_def fbt)
    show ?case
    proof (cases "snd b = y \<and> fst b = x")
      case True
      with orig show ?thesis by simp
    next
      case False
      with around.hyps(4) have "block ?t1 (snd b) (fst b) = UNKNWON" unfolding b1 by auto
      with pw[of "snd b" "fst b"] nb show ?thesis by auto
    qed
  qed
  show blk: "block t cy cx = (if (cx, cy) \<in> ?R then mine s cy cx else block s cy cx)" for cy cx
  proof (cases "(cx, cy) \<in> ?R")
    case True
    with compl[of "(cx, cy)"] show ?thesis by simp
  next
    case False
    then have "\<not> (cy = y \<and> cx = x)" using floodSet.origin[of x y s] by auto
    with pw[of cy cx] False show ?thesis unfolding b1 by auto
  qed
  have eqv: "block t cy cx \<noteq> block ?t1 cy cx \<longleftrightarrow> (cx, cy) \<in> ?R - {(x, y)}" for cy cx
  proof
    assume d: "block t cy cx \<noteq> block ?t1 cy cx"
    with pw[of cy cx] have "(cx, cy) \<in> ?R" by blast
    moreover from d orig have "\<not> (cx = x \<and> cy = y)" unfolding b1 by auto
    ultimately show "(cx, cy) \<in> ?R - {(x, y)}" by blast
  next
    assume "(cx, cy) \<in> ?R - {(x, y)}"
    then have r: "(cx, cy) \<in> ?R" and ne: "\<not> (cy = y \<and> cx = x)" by auto
    from cells[OF r] have "block s cy cx = UNKNWON" "0 \<le> mine s cy cx" by simp_all
    with ne blk[of cy cx] r show "block t cy cx \<noteq> block ?t1 cy cx" unfolding b1 by auto
  qed
  have "card {(cy, cx). block t cy cx \<noteq> block ?t1 cy cx} = card (?R - {(x, y)})"
    unfolding eqv by (rule card_swapped)
  also have "\<dots> = card ?R - 1"
    using finite_floodSet[OF co ins un nm] floodSet.origin[of x y s] by simp
  finally have c: "card {(cy, cx). block t cy cx \<noteq> block ?t1 cy cx} = card ?R - 1" .
  have "1 \<le> card ?R"
    using finite_floodSet[OF co ins un nm] floodSet.origin[of x y s]
    by (metis One_nat_def Suc_leI card_gt_0_iff empty_iff)
  with c have "int (card {(cy, cx). block t cy cx \<noteq> block ?t1 cy cx}) = int (card ?R) - 1"
    by simp
  with uk show "unknowns (ctx t) - 1 = unknowns (ctx s) - int (card ?R)" by simp
qed

section \<open>The states a game goes through\<close>

text \<open>What the constructor checks.\<close>

definition valid :: "IPrivateData \<Rightarrow> bool" where
  "valid s = (2 \<le> height s \<and> 2 \<le> mineQuantity s \<and> mineQuantity s < width s * height s)"

text \<open>
  While a game is played, every block of the map is unknown, marked, questioned, or shows
  the mine count of a cell without a mine.
\<close>

definition board :: "IPrivateData \<Rightarrow> bool" where
  "board s = (\<forall>x y. inside s x y \<longrightarrow>
     block s y x = UNKNWON \<or> block s y x = MARKED \<or> block s y x = QUESTION
     \<or> (0 \<le> block s y x \<and> block s y x = mine s y x))"

text \<open>
  The two counters: \<open>unknowns\<close> counts the unknown and the questioned blocks, and
  \<open>unmarkedMines\<close> is the number of mines less the number of marked blocks.
\<close>

definition tallied :: "IPrivateData \<Rightarrow> bool" where
  "tallied s =
     (unknowns (ctx s) = int (countCells (\<lambda>v. v = UNKNWON \<or> v = QUESTION) (blocks (ctx s)))
      \<and> unmarkedMines (ctx s) = mineQuantity s - int (countCells (\<lambda>v. v = MARKED) (blocks (ctx s))))"

text \<open>Every cell without a mine shows its mine count.\<close>

definition cleared :: "IPrivateData \<Rightarrow> bool" where
  "cleared s = (\<forall>x y. inside s x y \<and> mine s y x \<noteq> MINE_FLAG \<longrightarrow> block s y x = mine s y x)"

text \<open>Every cell with a mine reads as marked.\<close>

definition minesMarked :: "IPrivateData \<Rightarrow> bool" where
  "minesMarked s = (\<forall>x y. inside s x y \<and> mine s y x = MINE_FLAG \<longrightarrow> block s y x = MARKED)"

text \<open>What holds of every state of a game, as \<open>reachable_consistent\<close> shows below.\<close>

definition consistent :: "IPrivateData \<Rightarrow> bool" where
  "consistent s =
     (valid s \<and> shaped s \<and> counted s
      \<and> int (countCells (\<lambda>v. v = MINE_FLAG) (mines (ctx s))) = mineQuantity s
      \<and> (status (ctx s) = PLAYING \<longrightarrow>
            board s \<and> tallied s \<and> unknowns (ctx s) \<noteq> unmarkedMines (ctx s))
      \<and> (status (ctx s) = WIN \<longrightarrow>
            unknowns (ctx s) = 0 \<and> unmarkedMines (ctx s) = 0 \<and> cleared s \<and> minesMarked s))"

lemma win_equality:
  assumes sh: "shaped s" and co: "counted s"
    and mc: "int (countCells (\<lambda>v. v = MINE_FLAG) (mines (ctx s))) = mineQuantity s"
    and bo: "board s" and ta: "tallied s"
  shows "unknowns (ctx s) = unmarkedMines (ctx s) \<longleftrightarrow> cleared s"
proof -
  let ?HQ = "{(y, x). present (blocks (ctx s)) y x \<and> (block s y x = UNKNWON \<or> block s y x = QUESTION)}"
  let ?F = "{(y, x). present (blocks (ctx s)) y x \<and> block s y x = MARKED}"
  let ?M = "{(y, x). present (mines (ctx s)) y x \<and> mine s y x = MINE_FLAG}"
  note pb = shaped_present(1)[OF sh] and pm = shaped_present(2)[OF sh]
  have fin: "finite ?HQ" "finite ?F" "finite ?M"
    by (rule finite_present)+
  have dis: "?HQ \<inter> ?F = {}" by auto
  have cu: "card (?HQ \<union> ?F) = card ?HQ + card ?F"
    by (rule card_Un_disjoint[OF fin(1,2) dis])
  have bd: "block s y x = UNKNWON \<or> block s y x = MARKED \<or> block s y x = QUESTION
     \<or> (0 \<le> block s y x \<and> block s y x = mine s y x)" if "inside s x y" for x y
    using bo that unfolding board_def by blast
  have sub: "?M \<subseteq> ?HQ \<union> ?F"
  proof (rule subsetI)
    fix c assume c: "c \<in> ?M"
    obtain y x where yx: "c = (y, x)" by (cases c)
    from c yx have i: "inside s x y" and m: "mine s y x = MINE_FLAG" by (simp_all add: pm)
    from bd[OF i] m have "block s y x = UNKNWON \<or> block s y x = QUESTION \<or> block s y x = MARKED"
      by auto
    with i show "c \<in> ?HQ \<union> ?F" unfolding yx by (auto simp: pb)
  qed
  have u: "unknowns (ctx s) = int (card ?HQ)" and f: "unmarkedMines (ctx s) = mineQuantity s - int (card ?F)"
    using ta by (simp_all add: tallied_def countCells_card)
  have m: "mineQuantity s = int (card ?M)" using mc by (simp add: countCells_card)
  have eq: "unknowns (ctx s) = unmarkedMines (ctx s) \<longleftrightarrow> card (?HQ \<union> ?F) = card ?M"
    unfolding cu u f m by auto
  show ?thesis
  proof
    assume "unknowns (ctx s) = unmarkedMines (ctx s)"
    with eq have "card ?M = card (?HQ \<union> ?F)" by simp
    with sub fin have e: "?M = ?HQ \<union> ?F" by (intro card_subset_eq) auto
    show "cleared s"
      unfolding cleared_def
    proof (intro allI impI)
      fix x y assume a: "inside s x y \<and> mine s y x \<noteq> MINE_FLAG"
      then have "(y, x) \<notin> ?M" by simp
      with e have "(y, x) \<notin> ?HQ \<union> ?F" by simp
      with a have "\<not> (block s y x = UNKNWON \<or> block s y x = QUESTION \<or> block s y x = MARKED)"
        by (auto simp: pb)
      with bd[of x y] a show "block s y x = mine s y x" by blast
    qed
  next
    assume cl: "cleared s"
    have "?HQ \<union> ?F \<subseteq> ?M"
    proof (rule subsetI)
      fix c assume cm: "c \<in> ?HQ \<union> ?F"
      obtain y x where yx: "c = (y, x)" by (cases c)
      from cm yx have i: "inside s x y" and neg: "block s y x < 0" by (auto simp: pb)
      have "mine s y x = MINE_FLAG"
      proof (rule ccontr)
        assume nm: "mine s y x \<noteq> MINE_FLAG"
        with cl i have "block s y x = mine s y x" unfolding cleared_def by blast
        with counted_nonneg[OF co i nm] neg show False by simp
      qed
      with i show "c \<in> ?M" unfolding yx by (simp add: pm)
    qed
    with sub have "?HQ \<union> ?F = ?M" by blast
    with eq show "unknowns (ctx s) = unmarkedMines (ctx s)" by simp
  qed
qed

lemma shaped_frame:
  assumes "map length (blocks (ctx t)) = map length (blocks (ctx s))"
    "mines (ctx t) = mines (ctx s)" "height t = height s" "width t = width s"
  shows "shaped t = shaped s"
  using assms by (simp add: shaped_def)

lemma checkWin_consistent:
  assumes va: "valid s" and sh: "shaped s" and co: "counted s"
    and mc: "int (countCells (\<lambda>v. v = MINE_FLAG) (mines (ctx s))) = mineQuantity s"
    and bo: "board s" and ta: "tallied s" and st: "status (ctx s) = PLAYING"
  shows "consistent (checkWin s)"
    and "status (ctx (checkWin s)) = (if cleared s then WIN else PLAYING)"
    and "\<not> cleared s \<Longrightarrow> checkWin s = s"
    and "cleared s \<Longrightarrow> sameButBlocks (s\<lparr>ctx := (ctx s)\<lparr>status := WIN, unmarkedMines := 0, unknowns := 0\<rparr>\<rparr>) (checkWin s)"
    and "cleared s \<Longrightarrow> block (checkWin s) y x = (if inside s x y \<and> mine s y x = MINE_FLAG then MARKED else block s y x)"
proof -
  note we = win_equality[OF sh co mc bo ta]
  show n: "\<not> cleared s \<Longrightarrow> checkWin s = s" using we by (simp add: checkWin_no)
  let ?s1 = "s\<lparr>ctx := (ctx s)\<lparr>status := WIN, unmarkedMines := 0, unknowns := 0\<rparr>\<rparr>"
  show sb: "cleared s \<Longrightarrow> sameButBlocks ?s1 (checkWin s)"
    using we checkWin_yes(1)[of s] by simp
  show bl: "cleared s \<Longrightarrow> block (checkWin s) y x = (if inside s x y \<and> mine s y x = MINE_FLAG then MARKED else block s y x)" for y x
    using we checkWin_yes(3)[of s y x] shaped_present(1)[OF sh, of y x] by simp
  show "status (ctx (checkWin s)) = (if cleared s then WIN else PLAYING)"
  proof (cases "cleared s")
    case True
    from sameButBlocks_fields(4)[OF sb[OF True]] True show ?thesis by simp
  next
    case False
    with n st show ?thesis by simp
  qed
  show "consistent (checkWin s)"
  proof (cases "cleared s")
    case False
    with n we assms show ?thesis by (simp add: consistent_def)
  next
    case True
    let ?t = "checkWin s"
    note f = sameButBlocks_fields[OF sb[OF True]]
    have ml: "map length (blocks (ctx ?t)) = map length (blocks (ctx s))"
      using we True checkWin_yes(2)[of s] by simp
    have v: "valid ?t" using va f by (simp add: valid_def)
    have s': "shaped ?t" using sh shaped_frame[of ?t s] ml f by simp
    have c': "counted ?t" using co counted_frame[of ?t s] f by simp
    have m': "int (countCells (\<lambda>v. v = MINE_FLAG) (mines (ctx ?t))) = mineQuantity ?t"
      using mc f by simp
    have ins: "inside ?t x y = inside s x y" for x y using f by simp
    have mi: "mine ?t y x = mine s y x" for x y using f by simp
    have cl: "cleared ?t"
      using True unfolding cleared_def ins mi bl[OF True] by simp
    have mm: "minesMarked ?t"
      unfolding minesMarked_def ins mi bl[OF True] by simp
    from v s' c' m' cl mm f show ?thesis by (simp add: consistent_def)
  qed
qed

lemma restart_consistent:
  assumes va: "valid s" and r: "restart s now rs = Some t" and d: "drawn s rs"
  shows "consistent t"
proof -
  note c = restart_counted[OF r d]
  note f = restart_fields[OF r]
  from va have h: "0 < height s" and m: "mineQuantity s < width s * height s"
    by (simp_all add: valid_def)
  from m h have w: "0 < width s"
    by (metis less_le_trans mult_nonneg_nonneg mult_less_0_iff not_less va valid_def zero_less_mult_iff zero_less_numeral less_imp_le)
  have v: "valid t" using va f by (simp add: valid_def)
  have bo: "board t"
    unfolding board_def using f(1) by (auto simp: cell_replicate f)
  have hw: "int (nat (height s) * nat (width s)) = height s * width s"
    using h w by (simp add: nat_mult_distrib)
  have ta: "tallied t"
    using hw by (simp add: tallied_def f countCells_replicate)
  have ne: "unknowns (ctx t) \<noteq> unmarkedMines (ctx t)"
    using m by (simp add: f mult.commute)
  from v c bo ta ne f show ?thesis by (simp add: consistent_def)
qed

lemma created_consistent:
  assumes "MineSweeper h w m f now rs = Inr (Some s)" "drawn s rs"
  shows "consistent s"
proof -
  obtain hi wi mi where n: "h = Integer hi" "w = Integer wi" "m = Integer mi"
    using assms(1) by (cases h; cases w; cases m) simp_all
  let ?s0 = "\<lparr>ctx = \<lparr>blocks = [], mines = [], unmarkedMines = 0, startedAt = 0, status = PLAYING, unknowns = 0\<rparr>,
         height = hi, width = wi, mineQuantity = mi, showMinesOnlyOnFailed = f\<rparr>"
  from assms(1) have v: "valid ?s0" and r: "restart ?s0 now rs = Some s"
    unfolding n by (simp_all add: valid_def split: if_splits)
  from restart_fields[OF r] assms(2) have "drawn ?s0 rs" by (simp add: drawn_def)
  from restart_consistent[OF v r this] show ?thesis .
qed

lemma die_consistent:
  assumes "consistent s"
  shows "consistent (die s x y)" and "status (ctx (die s x y)) = FAILED"
proof -
  let ?t = "die s x y"
  note f = sameButBlocks_fields[OF die_result(1)[of s x y]]
  note ml = die_result(2)[of s x y]
  show st: "status (ctx ?t) = FAILED" using f by simp
  from assms have "valid s" "shaped s" "counted s"
    "int (countCells (\<lambda>v. v = MINE_FLAG) (mines (ctx s))) = mineQuantity s"
    by (simp_all add: consistent_def)
  then have "valid ?t" "shaped ?t" "counted ?t"
    "int (countCells (\<lambda>v. v = MINE_FLAG) (mines (ctx ?t))) = mineQuantity ?t"
    using f ml shaped_frame[of ?t s] counted_frame[of ?t s] by (simp_all add: valid_def)
  with st show "consistent ?t" by (simp add: consistent_def)
qed

text \<open>
  The transition table of the specification for \<^verbatim>\<open>mark\<close>, read off its words: for the
  visible state of the cell (\<open>UNKNWON\<close> Hidden, \<open>QUESTION\<close> Questioned, \<open>MARKED\<close> Flagged) and the
  style asked for, the new visible state and the amount added to both counters.
\<close>

definition markTable :: "int \<Rightarrow> EMarkStyle \<Rightarrow> int \<times> int" where
  "markTable blk style =
     (if blk = MARKED then
        (case style of Style_UNMARKED \<Rightarrow> (UNKNWON, 1) | Style_MINE \<Rightarrow> (MARKED, 0) | Style_QUESTION \<Rightarrow> (QUESTION, 1))
      else
        (case style of Style_UNMARKED \<Rightarrow> (UNKNWON, 0) | Style_MINE \<Rightarrow> (MARKED, - 1) | Style_QUESTION \<Rightarrow> (QUESTION, 0)))"

text \<open>The state with block \<open>(x, y)\<close> set to \<open>v\<close> and \<open>d\<close> added to both counters.\<close>

definition markedAs :: "IPrivateData \<Rightarrow> int \<Rightarrow> int \<Rightarrow> int \<times> int \<Rightarrow> IPrivateData" where
  "markedAs s x y vd =
     setBlock (s\<lparr>ctx := (ctx s)\<lparr>unmarkedMines := unmarkedMines (ctx s) + snd vd,
                                unknowns := unknowns (ctx s) + snd vd\<rparr>\<rparr>) y x (fst vd)"

lemma markedAs_fields [simp]:
  "mines (ctx (markedAs s x y vd)) = mines (ctx s)"
  "unmarkedMines (ctx (markedAs s x y vd)) = unmarkedMines (ctx s) + snd vd"
  "startedAt (ctx (markedAs s x y vd)) = startedAt (ctx s)"
  "status (ctx (markedAs s x y vd)) = status (ctx s)"
  "unknowns (ctx (markedAs s x y vd)) = unknowns (ctx s) + snd vd"
  "height (markedAs s x y vd) = height s"
  "width (markedAs s x y vd) = width s"
  "mineQuantity (markedAs s x y vd) = mineQuantity s"
  "showMinesOnlyOnFailed (markedAs s x y vd) = showMinesOnlyOnFailed s"
  "blocks (ctx (markedAs s x y vd)) = setCell (blocks (ctx s)) y x (fst vd)"
  by (simp_all add: markedAs_def)

lemma same_counters [simp]:
  "s\<lparr>ctx := (ctx s)\<lparr>unmarkedMines := unmarkedMines (ctx s), unknowns := unknowns (ctx s)\<rparr>\<rparr> = s"
  by simp

lemma mark_accepted:
  assumes st: "status (ctx s) = PLAYING" and ins: "inside s x y"
    and blk: "block s y x = UNKNWON \<or> block s y x = MARKED \<or> block s y x = QUESTION"
    and ne: "unknowns (ctx s) \<noteq> unmarkedMines (ctx s)"
  shows "mark s (Integer x) (Integer y) style = Inr (True, markedAs s x y (markTable (block s y x) style))"
proof -
  have cw: "checkWin t = t" if "unknowns (ctx t) - unmarkedMines (ctx t) = unknowns (ctx s) - unmarkedMines (ctx s)" for t
    by (rule checkWin_no) (use that ne in linarith)
  have cs: "checkWin s = s" by (rule cw) simp
  from blk consider "block s y x = UNKNWON" | "block s y x = MARKED" | "block s y x = QUESTION" by blast
  then show ?thesis
  proof cases
    case 1
    then show ?thesis
      using st ins cs setBlock_same[of s y x]
      by (cases style) (simp_all add: mark_def getBlock_def markTable_def markedAs_def cw)
  next
    case 2
    then show ?thesis
      using st ins cs setBlock_same[of s y x]
      by (cases style) (simp_all add: mark_def getBlock_def markTable_def markedAs_def cw)
  next
    case 3
    then show ?thesis
      using st ins cs setBlock_same[of s y x]
      by (cases style) (simp_all add: mark_def getBlock_def markTable_def markedAs_def cw)
  qed
qed

lemma mark_rejected:
  assumes "inside s x y"
    and "status (ctx s) \<noteq> PLAYING \<or> \<not> (block s y x = UNKNWON \<or> block s y x = MARKED \<or> block s y x = QUESTION)"
  shows "mark s (Integer x) (Integer y) style = Inr (False, s)"
  using assms by (auto simp: mark_def getBlock_def)

lemma markedAs_consistent:
  assumes c: "consistent s" and st: "status (ctx s) = PLAYING" and ins: "inside s x y"
    and blk: "block s y x = UNKNWON \<or> block s y x = MARKED \<or> block s y x = QUESTION"
  shows "consistent (markedAs s x y (markTable (block s y x) style))"
proof -
  let ?vd = "markTable (block s y x) style"
  let ?t = "markedAs s x y ?vd"
  from c st have va: "valid s" and sh: "shaped s" and co: "counted s"
    and mc: "int (countCells (\<lambda>v. v = MINE_FLAG) (mines (ctx s))) = mineQuantity s"
    and bo: "board s" and ta: "tallied s" and ne: "unknowns (ctx s) \<noteq> unmarkedMines (ctx s)"
    by (simp_all add: consistent_def)
  have pr: "present (blocks (ctx s)) y x" using shaped_present(1)[OF sh] ins by simp
  have v: "fst ?vd = UNKNWON \<or> fst ?vd = MARKED \<or> fst ?vd = QUESTION"
    by (cases style) (simp_all add: markTable_def)
  have va': "valid ?t" using va by (simp add: valid_def)
  have sh': "shaped ?t" using sh shaped_frame[of ?t s] by simp
  have co': "counted ?t" using co counted_frame[of ?t s] by simp
  have bl: "block ?t cy cx = (if cy = y \<and> cx = x then fst ?vd else block s cy cx)" for cy cx
    using pr by (simp add: cell_setCell)
  have bo': "board ?t"
    unfolding board_def
  proof (intro allI impI)
    fix cx cy assume "inside ?t cx cy"
    then have "inside s cx cy" by simp
    with bo have "block s cy cx = UNKNWON \<or> block s cy cx = MARKED \<or> block s cy cx = QUESTION
        \<or> (0 \<le> block s cy cx \<and> block s cy cx = mine s cy cx)"
      unfolding board_def by blast
    then show "block ?t cy cx = UNKNWON \<or> block ?t cy cx = MARKED \<or> block ?t cy cx = QUESTION
        \<or> (0 \<le> block ?t cy cx \<and> block ?t cy cx = mine ?t cy cx)"
      unfolding bl using v by (cases "cy = y \<and> cx = x") auto
  qed
  note c1 = countCells_setCell[OF pr, of "\<lambda>v. v = UNKNWON \<or> v = QUESTION" "fst ?vd"]
  note c2 = countCells_setCell[OF pr, of "\<lambda>v. v = MARKED" "fst ?vd"]
  have ta': "tallied ?t"
    using ta blk c1 c2 unfolding tallied_def
    by (cases style) (auto simp: markTable_def)
  have ne': "unknowns (ctx ?t) \<noteq> unmarkedMines (ctx ?t)" using ne by simp
  from va' sh' co' mc bo' ta' ne' st show ?thesis by (simp add: consistent_def)
qed

text \<open>
  The state in which \<^verbatim>\<open>sweep\<close> calls \<^verbatim>\<open>_checkWin\<close>, after a cell without a mine was
  revealed, \<^verbatim>\<open>_cleanBlock\<close> has run and \<open>unknowns\<close> was decreased for the swept cell.
\<close>

definition sweepReveal :: "IPrivateData \<Rightarrow> int \<Rightarrow> int \<Rightarrow> IPrivateData" where
  "sweepReveal s x y =
     (let t = cleanBlock (setBlock s y x (mine s y x)) x y
      in t\<lparr>ctx := (ctx t)\<lparr>unknowns := unknowns (ctx t) - 1\<rparr>\<rparr>)"

lemma sweep_cases:
  assumes "inside s x y"
  shows "sweep s (Integer x) (Integer y) =
     (if status (ctx s) \<noteq> PLAYING \<or> block s y x \<noteq> UNKNWON then Inr (status (ctx s), s)
      else if mine s y x = MINE_FLAG then Inr (status (ctx (die s x y)), die s x y)
      else Inr (status (ctx (checkWin (sweepReveal s x y))), checkWin (sweepReveal s x y)))"
  using assms by (simp add: sweep_def getBlock_def sweepReveal_def Let_def)

lemma sweepReveal_result:
  assumes sh: "shaped s" and co: "counted s" and ins: "inside s x y"
    and un: "block s y x = UNKNWON" and nm: "mine s y x \<noteq> MINE_FLAG"
  shows "sameButBoard s (sweepReveal s x y)"
    and "map length (blocks (ctx (sweepReveal s x y))) = map length (blocks (ctx s))"
    and "block (sweepReveal s x y) cy cx = (if (cx, cy) \<in> floodSet s x y then mine s cy cx else block s cy cx)"
    and "unknowns (ctx (sweepReveal s x y)) = unknowns (ctx s) - int (card (floodSet s x y))"
proof -
  let ?t = "cleanBlock (setBlock s y x (mine s y x)) x y"
  note F = sweep_floods[OF sh co ins un nm]
  have e: "sweepReveal s x y = ?t\<lparr>ctx := (ctx ?t)\<lparr>unknowns := unknowns (ctx ?t) - 1\<rparr>\<rparr>"
    by (simp add: sweepReveal_def Let_def)
  show "sameButBoard s (sweepReveal s x y)"
    using F(1) unfolding e by (simp add: sameButBoard_iff)
  show "map length (blocks (ctx (sweepReveal s x y))) = map length (blocks (ctx s))"
    using F(2) unfolding e by simp
  show "block (sweepReveal s x y) cy cx = (if (cx, cy) \<in> floodSet s x y then mine s cy cx else block s cy cx)"
    using F(3)[of cy cx] unfolding e by simp
  show "unknowns (ctx (sweepReveal s x y)) = unknowns (ctx s) - int (card (floodSet s x y))"
    using F(4) unfolding e by simp
qed

lemma sweepReveal_tallied:
  assumes sh: "shaped s" and co: "counted s" and ins: "inside s x y"
    and un: "block s y x = UNKNWON" and nm: "mine s y x \<noteq> MINE_FLAG"
    and bo: "board s" and ta: "tallied s"
  shows "board (sweepReveal s x y)" and "tallied (sweepReveal s x y)"
proof -
  let ?t = "sweepReveal s x y"
  let ?R = "floodSet s x y"
  note R = sweepReveal_result[OF sh co ins un nm]
  note f = sameButBoard_fields[OF R(1)]
  note cells = floodSet_cells[OF co ins un nm]
  have pc: "present (blocks (ctx ?t)) cy cx = present (blocks (ctx s)) cy cx" for cy cx
    by (rule present_cong[OF R(2)])
  show "board ?t"
    unfolding board_def
  proof (intro allI impI)
    fix cx cy assume "inside ?t cx cy"
    then have i: "inside s cx cy" using f by simp
    with bo have b: "block s cy cx = UNKNWON \<or> block s cy cx = MARKED \<or> block s cy cx = QUESTION
        \<or> (0 \<le> block s cy cx \<and> block s cy cx = mine s cy cx)"
      unfolding board_def by blast
    have m: "mine ?t cy cx = mine s cy cx" using f by simp
    show "block ?t cy cx = UNKNWON \<or> block ?t cy cx = MARKED \<or> block ?t cy cx = QUESTION
        \<or> (0 \<le> block ?t cy cx \<and> block ?t cy cx = mine ?t cy cx)"
    proof (cases "(cx, cy) \<in> ?R")
      case True
      with cells[OF True] show ?thesis unfolding R(3) m by simp
    next
      case False
      with b show ?thesis unfolding R(3) m by simp
    qed
  qed
  let ?S = "{(cy, cx). (cx, cy) \<in> ?R}"
  let ?A = "{(cy, cx). present (blocks (ctx s)) cy cx \<and> (block s cy cx = UNKNWON \<or> block s cy cx = QUESTION)}"
  let ?A' = "{(cy, cx). present (blocks (ctx ?t)) cy cx \<and> (block ?t cy cx = UNKNWON \<or> block ?t cy cx = QUESTION)}"
  have inR: "inside s cx cy \<and> block s cy cx = UNKNWON \<and> 0 \<le> mine s cy cx" if "(cx, cy) \<in> ?R" for cx cy
    using cells[OF that] by simp
  have sub: "?S \<subseteq> ?A"
    using inR by (auto simp: shaped_present(1)[OF sh])
  have hq_iff: "(block ?t cy cx = UNKNWON \<or> block ?t cy cx = QUESTION)
      \<longleftrightarrow> (block s cy cx = UNKNWON \<or> block s cy cx = QUESTION) \<and> (cx, cy) \<notin> ?R" for cy cx
    unfolding R(3) using inR[of cx cy] by (cases "(cx, cy) \<in> ?R") auto
  have A': "?A' = ?A - ?S"
    unfolding pc hq_iff by auto
  have fin: "finite ?A" by (rule finite_present)
  have fS: "finite ?S" by (rule finite_subset[OF sub fin])
  have "card ?A' = card ?A - card ?S"
    unfolding A' by (rule card_Diff_subset[OF fS sub])
  moreover have "card ?S \<le> card ?A" by (rule card_mono[OF fin sub])
  moreover have "card ?S = card ?R" by (rule card_swapped)
  ultimately have hq: "int (card ?A') = int (card ?A) - int (card ?R)" by simp
  have fl_iff: "block ?t cy cx = MARKED \<longleftrightarrow> block s cy cx = MARKED" for cy cx
    unfolding R(3) using inR[of cx cy] by (cases "(cx, cy) \<in> ?R") auto
  have "{(cy, cx). present (blocks (ctx ?t)) cy cx \<and> block ?t cy cx = MARKED}
      = {(cy, cx). present (blocks (ctx s)) cy cx \<and> block s cy cx = MARKED}"
    unfolding pc fl_iff by simp
  then have fl: "countCells (\<lambda>v. v = MARKED) (blocks (ctx ?t)) = countCells (\<lambda>v. v = MARKED) (blocks (ctx s))"
    by (simp only: countCells_card)
  from ta hq fl show "tallied ?t"
    unfolding tallied_def countCells_card R(4) using f by simp
qed

lemma sweep_consistent:
  assumes c: "consistent s" and ins: "inside s x y" and sw: "sweep s (Integer x) (Integer y) = Inr (r, t)"
  shows "consistent t \<and> r = status (ctx t)"
proof -
  from c have va: "valid s" and sh: "shaped s" and co: "counted s"
    and mc: "int (countCells (\<lambda>v. v = MINE_FLAG) (mines (ctx s))) = mineQuantity s"
    by (simp_all add: consistent_def)
  consider (noop) "status (ctx s) \<noteq> PLAYING \<or> block s y x \<noteq> UNKNWON"
    | (boom) "status (ctx s) = PLAYING" "block s y x = UNKNWON" "mine s y x = MINE_FLAG"
    | (safe) "status (ctx s) = PLAYING" "block s y x = UNKNWON" "mine s y x \<noteq> MINE_FLAG"
    by blast
  then show ?thesis
  proof cases
    case noop
    with sw c show ?thesis unfolding sweep_cases[OF ins] by auto
  next
    case boom
    with sw die_consistent[OF c, of x y] show ?thesis unfolding sweep_cases[OF ins] by auto
  next
    case safe
    let ?u = "sweepReveal s x y"
    from c safe(1) have bo: "board s" and ta: "tallied s" by (simp_all add: consistent_def)
    note R = sweepReveal_result[OF sh co ins safe(2,3)]
    note T = sweepReveal_tallied[OF sh co ins safe(2,3) bo ta]
    note f = sameButBoard_fields[OF R(1)]
    have va': "valid ?u" using va f by (simp add: valid_def)
    have sh': "shaped ?u" using sh shaped_frame[of ?u s] R(2) f by simp
    have co': "counted ?u" using co counted_frame[of ?u s] f by simp
    have mc': "int (countCells (\<lambda>v. v = MINE_FLAG) (mines (ctx ?u))) = mineQuantity ?u"
      using mc f by simp
    have st': "status (ctx ?u) = PLAYING" using safe(1) f by simp
    from checkWin_consistent(1)[OF va' sh' co' mc' T st'] sw safe
    show ?thesis unfolding sweep_cases[OF ins] by auto
  qed
qed

lemma accepted_coordinates:
  assumes "checkCoordinate s x y"
  obtains xi yi where "x = Integer xi" "y = Integer yi" "inside s xi yi"
  using assms by (cases x; cases y) simp_all

lemma sweep_throws: "\<not> checkCoordinate s x y \<Longrightarrow> sweep s x y = Inl OUT_TO_BOUNDARY"
  by (simp add: sweep_def getBlock_def)

lemma explore_throws: "\<not> checkCoordinate s x y \<Longrightarrow> explore s x y = Inl OUT_TO_BOUNDARY"
  by (simp add: explore_def getBlock_def)

lemma sweep_frame:
  assumes c: "consistent s" and ins: "inside s x y" and sw: "sweep s (Integer x) (Integer y) = Inr (r, t)"
  shows "mines (ctx t) = mines (ctx s)" "height t = height s" "width t = width s"
    "mineQuantity t = mineQuantity s" "showMinesOnlyOnFailed t = showMinesOnlyOnFailed s"
    "startedAt (ctx t) = startedAt (ctx s)"
proof -
  from c have va: "valid s" and sh: "shaped s" and co: "counted s"
    and mc: "int (countCells (\<lambda>v. v = MINE_FLAG) (mines (ctx s))) = mineQuantity s"
    by (simp_all add: consistent_def)
  consider (noop) "status (ctx s) \<noteq> PLAYING \<or> block s y x \<noteq> UNKNWON"
    | (boom) "status (ctx s) = PLAYING" "block s y x = UNKNWON" "mine s y x = MINE_FLAG"
    | (safe) "status (ctx s) = PLAYING" "block s y x = UNKNWON" "mine s y x \<noteq> MINE_FLAG"
    by blast
  then have "mines (ctx t) = mines (ctx s) \<and> height t = height s \<and> width t = width s
    \<and> mineQuantity t = mineQuantity s \<and> showMinesOnlyOnFailed t = showMinesOnlyOnFailed s
    \<and> startedAt (ctx t) = startedAt (ctx s)"
  proof cases
    case noop
    with sw show ?thesis unfolding sweep_cases[OF ins] by auto
  next
    case boom
    with sw have "t = die s x y" unfolding sweep_cases[OF ins] by auto
    with sameButBlocks_fields[OF die_result(1)[of s x y]] show ?thesis by simp
  next
    case safe
    let ?u = "sweepReveal s x y"
    from c safe(1) have bo: "board s" and ta: "tallied s" by (simp_all add: consistent_def)
    note R = sweepReveal_result[OF sh co ins safe(2,3)]
    note T = sweepReveal_tallied[OF sh co ins safe(2,3) bo ta]
    note f = sameButBoard_fields[OF R(1)]
    have va': "valid ?u" using va f by (simp add: valid_def)
    have sh': "shaped ?u" using sh shaped_frame[of ?u s] R(2) f by simp
    have co': "counted ?u" using co counted_frame[of ?u s] f by simp
    have mc': "int (countCells (\<lambda>v. v = MINE_FLAG) (mines (ctx ?u))) = mineQuantity ?u"
      using mc f by simp
    have st': "status (ctx ?u) = PLAYING" using safe(1) f by simp
    note W = checkWin_consistent[OF va' sh' co' mc' T st']
    from sw safe have e: "t = checkWin ?u" unfolding sweep_cases[OF ins] by auto
    show ?thesis
    proof (cases "cleared ?u")
      case True
      from sameButBlocks_fields[OF W(4)[OF True]] f show ?thesis unfolding e by simp
    next
      case False
      from W(3)[OF False] f show ?thesis unfolding e by simp
    qed
  qed
  then show "mines (ctx t) = mines (ctx s)" "height t = height s" "width t = width s"
    "mineQuantity t = mineQuantity s" "showMinesOnlyOnFailed t = showMinesOnlyOnFailed s"
    "startedAt (ctx t) = startedAt (ctx s)"
    by simp_all
qed

lemma sweep_inside_returns:
  assumes "inside s x y"
  obtains r t where "sweep s (Integer x) (Integer y) = Inr (r, t)"
  using sweep_cases[OF assms] by (metis (full_types))

lemma exploreAround_consistent:
  "consistent s \<Longrightarrow> \<forall>b \<in> set bs. inside s (fst b) (snd b) \<Longrightarrow> exploreAround s bs = Inr t
   \<Longrightarrow> consistent t"
proof (induction bs arbitrary: s)
  case Nil
  then show ?case by simp
next
  case (Cons b bs)
  from Cons.prems(2) have ib: "inside s (fst b) (snd b)"
    and ibs: "\<forall>c \<in> set bs. inside s (fst c) (snd c)" by simp_all
  obtain u where u: "(if block s (snd b) (fst b) = UNKNWON
            then map_sum id snd (sweep s (Integer (fst b)) (Integer (snd b)))
            else Inr s) = Inr u"
    and cu: "consistent u" and hw: "height u = height s" "width u = width s"
  proof (cases "block s (snd b) (fst b) = UNKNWON")
    case False
    with Cons.prems(1) that[of s] show ?thesis by simp
  next
    case True
    obtain r t1 where sw: "sweep s (Integer (fst b)) (Integer (snd b)) = Inr (r, t1)"
      by (rule sweep_inside_returns[OF ib])
    from sweep_consistent[OF Cons.prems(1) ib sw] sweep_frame(2,3)[OF Cons.prems(1) ib sw] True sw
    show ?thesis by (intro that[of t1]) simp_all
  qed
  show ?case
  proof (cases "status (ctx u) \<noteq> PLAYING")
    case True
    with Cons.prems(3) u cu show ?thesis by simp
  next
    case False
    with Cons.prems(3) u have e: "exploreAround u bs = Inr t" by simp
    from ibs hw have "\<forall>c \<in> set bs. inside u (fst c) (snd c)" by simp
    from Cons.IH[OF cu this e] show ?thesis .
  qed
qed

lemma explore_consistent:
  assumes c: "consistent s" and ex: "explore s x y = Inr (r, t)"
  shows "consistent t"
proof -
  from ex have cc: "checkCoordinate s x y" using explore_throws[of s x y] by auto
  then obtain xi yi where xy: "x = Integer xi" "y = Integer yi" and ins: "inside s xi yi"
    by (rule accepted_coordinates)
  let ?blks = "findBlocksAround s xi yi"
  have ib: "\<forall>b \<in> set ?blks. inside s (fst b) (snd b)"
    using set_findBlocksAround[of _ _ s xi yi] by auto
  from ex ins have "t = s \<or> exploreAround s ?blks = Inr t"
    unfolding xy explore_def getBlock_def
    by (auto simp: Let_def split: if_splits sum.splits)
  then show ?thesis
  proof
    assume "t = s" with c show ?thesis by simp
  next
    assume "exploreAround s ?blks = Inr t"
    from exploreAround_consistent[OF c ib this] show ?thesis .
  qed
qed

lemma mark_consistent:
  assumes c: "consistent s" and m: "mark s x y style = Inr (b, t)"
  shows "consistent t"
proof (cases "status (ctx s) = PLAYING")
  case False
  with m c show ?thesis by (simp add: mark_def)
next
  case True
  with m have cc: "checkCoordinate s x y" by (auto simp: mark_def getBlock_def split: if_splits)
  then obtain xi yi where xy: "x = Integer xi" "y = Integer yi" and ins: "inside s xi yi"
    by (rule accepted_coordinates)
  show ?thesis
  proof (cases "block s yi xi = UNKNWON \<or> block s yi xi = MARKED \<or> block s yi xi = QUESTION")
    case False
    with mark_rejected[OF ins, of style] m c show ?thesis unfolding xy by simp
  next
    case blk: True
    from c True have "unknowns (ctx s) \<noteq> unmarkedMines (ctx s)" by (simp add: consistent_def)
    from mark_accepted[OF True ins blk this, of style] m
    have "t = markedAs s xi yi (markTable (block s yi xi) style)" unfolding xy by simp
    with markedAs_consistent[OF c True ins blk, of style] show ?thesis by simp
  qed
qed

lemma reachable_consistent: "reachable s \<Longrightarrow> consistent s"
proof (induction rule: reachable.induct)
  case (created h w m f now rs s)
  then show ?case by (rule created_consistent)
next
  case (restarted s now rs t)
  from restarted.IH have "valid s" by (simp add: consistent_def)
  from restart_consistent[OF this restarted.hyps(2,3)] show ?case .
next
  case (marked s x y style b t)
  from mark_consistent[OF marked.IH marked.hyps(2)] show ?case .
next
  case (swept s x y r t)
  from swept.hyps(2) have "checkCoordinate s x y" using sweep_throws[of s x y] by auto
  then obtain xi yi where xy: "x = Integer xi" "y = Integer yi" and ins: "inside s xi yi"
    by (rule accepted_coordinates)
  from sweep_consistent[OF swept.IH ins swept.hyps(2)[unfolded xy]] show ?case by simp
next
  case (explored s x y r t)
  from explore_consistent[OF explored.IH explored.hyps(2)] show ?case .
qed

lemma exploreAround_frame:
  "consistent s \<Longrightarrow> \<forall>b \<in> set bs. inside s (fst b) (snd b) \<Longrightarrow> exploreAround s bs = Inr t
   \<Longrightarrow> mines (ctx t) = mines (ctx s) \<and> height t = height s \<and> width t = width s"
proof (induction bs arbitrary: s)
  case Nil
  then show ?case by simp
next
  case (Cons b bs)
  from Cons.prems(2) have ib: "inside s (fst b) (snd b)"
    and ibs: "\<forall>c \<in> set bs. inside s (fst c) (snd c)" by simp_all
  obtain u where u: "(if block s (snd b) (fst b) = UNKNWON
            then map_sum id snd (sweep s (Integer (fst b)) (Integer (snd b)))
            else Inr s) = Inr u"
    and cu: "consistent u"
    and fr: "mines (ctx u) = mines (ctx s)" "height u = height s" "width u = width s"
  proof (cases "block s (snd b) (fst b) = UNKNWON")
    case False
    with Cons.prems(1) that[of s] show ?thesis by simp
  next
    case True
    obtain r t1 where sw: "sweep s (Integer (fst b)) (Integer (snd b)) = Inr (r, t1)"
      by (rule sweep_inside_returns[OF ib])
    from sweep_consistent[OF Cons.prems(1) ib sw] sweep_frame(1,2,3)[OF Cons.prems(1) ib sw] True sw
    show ?thesis by (intro that[of t1]) simp_all
  qed
  show ?case
  proof (cases "status (ctx u) \<noteq> PLAYING")
    case True
    with Cons.prems(3) u fr show ?thesis by simp
  next
    case False
    with Cons.prems(3) u have e: "exploreAround u bs = Inr t" by simp
    from ibs fr have "\<forall>c \<in> set bs. inside u (fst c) (snd c)" by simp
    from Cons.IH[OF cu this e] fr show ?thesis by simp
  qed
qed

lemma step_frame:
  assumes c: "consistent s"
    and act: "mark s x y style = Inr (b, t) \<or> sweep s x y = Inr (r, t) \<or> explore s x y = Inr (r, t)"
  shows "mines (ctx t) = mines (ctx s) \<and> height t = height s \<and> width t = width s"
  using act
proof (elim disjE)
  assume m: "mark s x y style = Inr (b, t)"
  show ?thesis
  proof (cases "status (ctx s) = PLAYING")
    case False
    with m show ?thesis by (simp add: mark_def)
  next
    case True
    with m have "checkCoordinate s x y" by (auto simp: mark_def getBlock_def split: if_splits)
    then obtain xi yi where xy: "x = Integer xi" "y = Integer yi" and ins: "inside s xi yi"
      by (rule accepted_coordinates)
    show ?thesis
    proof (cases "block s yi xi = UNKNWON \<or> block s yi xi = MARKED \<or> block s yi xi = QUESTION")
      case False
      with mark_rejected[OF ins, of style] m show ?thesis unfolding xy by simp
    next
      case blk: True
      from c True have "unknowns (ctx s) \<noteq> unmarkedMines (ctx s)" by (simp add: consistent_def)
      from mark_accepted[OF True ins blk this, of style] m
      have "t = markedAs s xi yi (markTable (block s yi xi) style)" unfolding xy by simp
      then show ?thesis by simp
    qed
  qed
next
  assume sw: "sweep s x y = Inr (r, t)"
  then have "checkCoordinate s x y" using sweep_throws[of s x y] by auto
  then obtain xi yi where xy: "x = Integer xi" "y = Integer yi" and ins: "inside s xi yi"
    by (rule accepted_coordinates)
  from sweep_frame(1,2,3)[OF c ins sw[unfolded xy]] show ?thesis by simp
next
  assume ex: "explore s x y = Inr (r, t)"
  then have "checkCoordinate s x y" using explore_throws[of s x y] by auto
  then obtain xi yi where xy: "x = Integer xi" "y = Integer yi" and ins: "inside s xi yi"
    by (rule accepted_coordinates)
  let ?blks = "findBlocksAround s xi yi"
  have ib: "\<forall>b \<in> set ?blks. inside s (fst b) (snd b)"
    using set_findBlocksAround[of _ _ s xi yi] by auto
  from ex ins have "t = s \<or> exploreAround s ?blks = Inr t"
    unfolding xy explore_def getBlock_def
    by (auto simp: Let_def split: if_splits sum.splits)
  then show ?thesis
  proof
    assume "t = s" then show ?thesis by simp
  next
    assume "exploreAround s ?blks = Inr t"
    from exploreAround_frame[OF c ib this] show ?thesis .
  qed
qed

lemma step_reachable:
  assumes "reachable s"
    and "mark s x y style = Inr (b, t) \<or> sweep s x y = Inr (r, t) \<or> explore s x y = Inr (r, t)"
  shows "reachable t"
  using assms by (auto intro: reachable.marked reachable.swept reachable.explored)

lemma consistent_status:
  assumes "consistent t"
  shows "status (ctx t) = WIN \<longleftrightarrow> status (ctx t) \<noteq> FAILED \<and> cleared t"
proof (cases "status (ctx t)")
  case PLAYING
  with assms have "shaped t" "counted t"
    "int (countCells (\<lambda>v. v = MINE_FLAG) (mines (ctx t))) = mineQuantity t" "board t" "tallied t"
    "unknowns (ctx t) \<noteq> unmarkedMines (ctx t)"
    by (simp_all add: consistent_def)
  from win_equality[OF this(1-5)] this(6) PLAYING show ?thesis by simp
next
  case WIN
  with assms show ?thesis by (simp add: consistent_def)
next
  case FAILED
  then show ?thesis by simp
qed

section \<open>Example games\<close>

text \<open>A new game of three rows and three columns with its two mines in the first row.\<close>

definition game_new :: IPrivateData where
  "game_new =
     \<lparr>ctx = \<lparr>blocks = [[- 1, - 1, - 1], [- 1, - 1, - 1], [- 1, - 1, - 1]],
             mines = [[- 1, - 1, 1], [2, 2, 1], [0, 0, 0]],
             unmarkedMines = 2, startedAt = 7, status = PLAYING, unknowns = 9\<rparr>,
      height = 3, width = 3, mineQuantity = 2, showMinesOnlyOnFailed = False\<rparr>"

text \<open>The same game after the mine at the top left was swept.\<close>

definition game_lost :: IPrivateData where
  "game_lost =
     \<lparr>ctx = \<lparr>blocks = [[DEAD, MINE, 1], [2, 2, 1], [0, 0, 0]],
             mines = [[- 1, - 1, 1], [2, 2, 1], [0, 0, 0]],
             unmarkedMines = 2, startedAt = 7, status = FAILED, unknowns = 9\<rparr>,
      height = 3, width = 3, mineQuantity = 2, showMinesOnlyOnFailed = False\<rparr>"

lemma game_new_created:
  "MineSweeper (Integer 3) (Integer 3) (Integer 2) False 7 [(0, 0), (0, 1)] = Inr (Some game_new)"
  by code_simp

lemma reachable_game_new: "reachable game_new"
  by (rule reachable.created[OF game_new_created]) (simp add: drawn_def game_new_def)

lemma sweep_game_new_mine: "sweep game_new (Integer 0) (Integer 0) = Inr (FAILED, game_lost)"
  by code_simp

lemma reachable_game_lost: "reachable game_lost"
  by (rule reachable.swept[OF reachable_game_new sweep_game_new_mine])

text \<open>The new game after the block at the bottom left was swept: two rows are revealed.\<close>

definition game_swept :: IPrivateData where
  "game_swept =
     \<lparr>ctx = \<lparr>blocks = [[- 1, - 1, - 1], [2, 2, 1], [0, 0, 0]],
             mines = [[- 1, - 1, 1], [2, 2, 1], [0, 0, 0]],
             unmarkedMines = 2, startedAt = 7, status = PLAYING, unknowns = 3\<rparr>,
      height = 3, width = 3, mineQuantity = 2, showMinesOnlyOnFailed = False\<rparr>"

text \<open>Then the block at the top right was swept, the last one without a mine.\<close>

definition game_won :: IPrivateData where
  "game_won =
     \<lparr>ctx = \<lparr>blocks = [[MARKED, MARKED, 1], [2, 2, 1], [0, 0, 0]],
             mines = [[- 1, - 1, 1], [2, 2, 1], [0, 0, 0]],
             unmarkedMines = 0, startedAt = 7, status = WIN, unknowns = 0\<rparr>,
      height = 3, width = 3, mineQuantity = 2, showMinesOnlyOnFailed = False\<rparr>"

text \<open>The new game after the block at the top left was marked as a mine.\<close>

definition game_marked :: IPrivateData where
  "game_marked =
     \<lparr>ctx = \<lparr>blocks = [[MARKED, - 1, - 1], [- 1, - 1, - 1], [- 1, - 1, - 1]],
             mines = [[- 1, - 1, 1], [2, 2, 1], [0, 0, 0]],
             unmarkedMines = 1, startedAt = 7, status = PLAYING, unknowns = 8\<rparr>,
      height = 3, width = 3, mineQuantity = 2, showMinesOnlyOnFailed = False\<rparr>"

lemma sweep_game_new_safe: "sweep game_new (Integer 0) (Integer 2) = Inr (PLAYING, game_swept)"
  by code_simp

lemma reachable_game_swept: "reachable game_swept"
  by (rule reachable.swept[OF reachable_game_new sweep_game_new_safe])

lemma sweep_game_swept_last: "sweep game_swept (Integer 2) (Integer 0) = Inr (WIN, game_won)"
  by code_simp

lemma reachable_game_won: "reachable game_won"
  by (rule reachable.swept[OF reachable_game_swept sweep_game_swept_last])

lemma mark_game_new: "mark game_new (Integer 0) (Integer 0) Style_MINE = Inr (True, game_marked)"
  by code_simp

lemma inside_game_new: "inside game_new x y \<longleftrightarrow> (x = 0 \<or> x = 1 \<or> x = 2) \<and> (y = 0 \<or> y = 1 \<or> y = 2)"
  by (auto simp: game_new_def)

lemma cleared_game_lost: "cleared game_lost"
proof -
  have i: "inside game_lost x y \<longleftrightarrow> (x = 0 \<or> x = 1 \<or> x = 2) \<and> (y = 0 \<or> y = 1 \<or> y = 2)" for x y
    by (auto simp: game_lost_def)
  show ?thesis
    unfolding cleared_def i by (auto simp: game_lost_def cell_def present_def)
qed

lemma sweepReveal_game_new: "sweepReveal game_new 0 2 = game_swept"
  by code_simp

section \<open>The claims\<close>

subsection \<open>C1: coordinates outside the map\<close>

text \<open>
  C1 says that for a coordinate pair outside the map (out of range or not an integer)
  \<^verbatim>\<open>mark\<close> returns false and \<^verbatim>\<open>sweep\<close> and \<^verbatim>\<open>explore\<close> return the status, none of them
  throwing. The code does otherwise: the three operations call \<^verbatim>\<open>getBlock\<close>, which throws
  \<^verbatim>\<open>OUT_TO_BOUNDARY\<close>. In the new game \<open>game_new\<close> sweeping column \<open>-1\<close>, exploring row 3
  and marking a column that is not an integer all throw.
\<close>

theorem out_of_bounds_cex:
  "sweep game_new (Integer (- 1)) (Integer 0) = Inl OUT_TO_BOUNDARY
   \<and> explore game_new (Integer 0) (Integer 3) = Inl OUT_TO_BOUNDARY
   \<and> mark game_new NonInteger (Integer 0) Style_MINE = Inl OUT_TO_BOUNDARY"
  by (simp add: sweep_def explore_def mark_def getBlock_def game_new_def)

text \<open>
  C1 as the code has it: for every game and every coordinate pair that \<^verbatim>\<open>_checkCoordinate\<close>
  rejects, \<^verbatim>\<open>getBlock\<close>, \<^verbatim>\<open>sweep\<close> and \<^verbatim>\<open>explore\<close> throw \<^verbatim>\<open>OUT_TO_BOUNDARY\<close>; \<^verbatim>\<open>mark\<close> throws it
  while the game is being played and returns false, the state untouched, once it is over.
  A throw changes nothing, the result being the error alone.
\<close>

theorem out_of_bounds_throws:
  assumes "\<not> checkCoordinate s x y"
  shows "getBlock s x y = Inl OUT_TO_BOUNDARY
    \<and> sweep s x y = Inl OUT_TO_BOUNDARY
    \<and> explore s x y = Inl OUT_TO_BOUNDARY
    \<and> mark s x y style = (if status (ctx s) \<noteq> PLAYING then Inr (False, s) else Inl OUT_TO_BOUNDARY)"
  using assms by (simp add: sweep_def explore_def mark_def getBlock_def)

theorem out_of_bounds_throws_witness:
  "\<not> checkCoordinate game_lost (Integer 0) NonInteger
   \<and> getBlock game_lost (Integer 0) NonInteger = Inl OUT_TO_BOUNDARY
   \<and> sweep game_lost (Integer 0) NonInteger = Inl OUT_TO_BOUNDARY
   \<and> explore game_lost (Integer 0) NonInteger = Inl OUT_TO_BOUNDARY
   \<and> mark game_lost (Integer 0) NonInteger Style_QUESTION = Inr (False, game_lost)"
proof -
  have c: "\<not> checkCoordinate game_lost (Integer 0) NonInteger" by simp
  have f: "status (ctx game_lost) = FAILED" by (simp add: game_lost_def)
  from out_of_bounds_throws[OF c, of Style_QUESTION] c f show ?thesis by simp
qed

subsection \<open>C9: a game that is over\<close>

text \<open>
  C9: once the status is \<open>WIN\<close> or \<open>FAILED\<close>, \<^verbatim>\<open>mark\<close> returns false and \<^verbatim>\<open>sweep\<close> and
  \<^verbatim>\<open>explore\<close> return that status for every coordinate pair inside the map, the whole
  state being as it was (outside the map the two throw, which changes nothing either);
  so the status cannot come back to \<open>PLAYING\<close> through them. Every \<^verbatim>\<open>restart\<close> that
  returns gives a state whose status is \<open>PLAYING\<close>.
\<close>

theorem terminal_status_final:
  assumes "status (ctx s) \<noteq> PLAYING"
  shows "mark s x y style = Inr (False, s)
    \<and> sweep s x y = (if checkCoordinate s x y then Inr (status (ctx s), s) else Inl OUT_TO_BOUNDARY)
    \<and> explore s x y = (if checkCoordinate s x y then Inr (status (ctx s), s) else Inl OUT_TO_BOUNDARY)
    \<and> (\<forall>now rs t. restart s now rs = Some t \<longrightarrow> status (ctx t) = PLAYING)"
  using assms by (auto simp: mark_def sweep_def explore_def getBlock_def restart_fields)

theorem terminal_status_final_witness:
  "status (ctx game_lost) \<noteq> PLAYING
   \<and> mark game_lost (Integer 2) (Integer 0) Style_MINE = Inr (False, game_lost)
   \<and> sweep game_lost (Integer 2) (Integer 0) = Inr (FAILED, game_lost)
   \<and> explore game_lost (Integer 2) (Integer 0) = Inr (FAILED, game_lost)
   \<and> (\<exists>t. restart game_lost 8 [(0, 0), (0, 1)] = Some t \<and> status (ctx t) = PLAYING)"
proof -
  have st: "status (ctx game_lost) \<noteq> PLAYING" by (simp add: game_lost_def)
  have r: "restart game_lost 8 [(0, 0), (0, 1)] = Some (game_new\<lparr>ctx := (ctx game_new)\<lparr>startedAt := 8\<rparr>\<rparr>)"
    by code_simp
  have c: "checkCoordinate game_lost (Integer 2) (Integer 0)" by (simp add: game_lost_def)
  have f: "status (ctx game_lost) = FAILED" by (simp add: game_lost_def)
  note T = terminal_status_final[OF st, of "Integer 2" "Integer 0" Style_MINE]
  from T r have "status (ctx (game_new\<lparr>ctx := (ctx game_new)\<lparr>startedAt := 8\<rparr>\<rparr>)) = PLAYING"
    by blast
  with T c f r show ?thesis by (simp add: st)
qed

subsection \<open>C8: the board after \<^verbatim>\<open>restart\<close>\<close>

text \<open>
  C8: whatever cells of the map the loop of \<^verbatim>\<open>restart\<close> draws, if the loop finishes with
  them, the state after \<^verbatim>\<open>restart\<close> has both grids of height rows by width columns, exactly
  \<open>mineQuantity\<close> cells of \<^verbatim>\<open>mines\<close> equal to \<open>-1\<close>, in every other cell of the map the number
  of mines among the cells around it inside the map, every block \<open>UNKNWON\<close>,
  \<open>unmarkedMines = mineQuantity\<close>, \<open>unknowns = height * width\<close> and the status \<open>PLAYING\<close>.
  This holds for every height, width and number of mines, those the constructor accepts
  among them.
\<close>

theorem restart_lays_mines:
  assumes "restart s now rs = Some t" and "drawn s rs"
  shows "shaped t
    \<and> int (countCells (\<lambda>v. v = MINE_FLAG) (mines (ctx t))) = mineQuantity s
    \<and> (\<forall>x y. inside t x y \<and> mine t y x \<noteq> MINE_FLAG \<longrightarrow> mine t y x = minesAround t x y)
    \<and> blocks (ctx t) = replicate (nat (height s)) (replicate (nat (width s)) UNKNWON)
    \<and> unmarkedMines (ctx t) = mineQuantity s
    \<and> unknowns (ctx t) = height s * width s
    \<and> status (ctx t) = PLAYING
    \<and> startedAt (ctx t) = now
    \<and> height t = height s \<and> width t = width s \<and> mineQuantity t = mineQuantity s
    \<and> showMinesOnlyOnFailed t = showMinesOnlyOnFailed s"
proof -
  note c = restart_counted[OF assms]
  from c(2) have "\<forall>x y. inside t x y \<and> mine t y x \<noteq> MINE_FLAG \<longrightarrow> mine t y x = minesAround t x y"
    by (auto simp: counted_def)
  with c(1,3) restart_fields[OF assms(1)] show ?thesis by simp
qed

theorem restart_lays_mines_witness:
  "restart game_lost 8 [(0, 0), (0, 0), (0, 1)] = Some (game_new\<lparr>ctx := (ctx game_new)\<lparr>startedAt := 8\<rparr>\<rparr>)
   \<and> drawn game_lost [(0, 0), (0, 0), (0, 1)]
   \<and> countCells (\<lambda>v. v = MINE_FLAG) (mines (ctx game_new)) = 2
   \<and> mine game_new 1 2 = minesAround game_new 2 1
   \<and> unknowns (ctx game_new) = 9"
proof -
  have r: "restart game_lost 8 [(0, 0), (0, 0), (0, 1)] = Some (game_new\<lparr>ctx := (ctx game_new)\<lparr>startedAt := 8\<rparr>\<rparr>)"
    by code_simp
  have d: "drawn game_lost [(0, 0), (0, 0), (0, 1)]" by (simp add: drawn_def game_lost_def)
  have i: "inside (game_new\<lparr>ctx := (ctx game_new)\<lparr>startedAt := 8\<rparr>\<rparr>) 2 1"
    "mine (game_new\<lparr>ctx := (ctx game_new)\<lparr>startedAt := 8\<rparr>\<rparr>) 1 2 \<noteq> MINE_FLAG"
    by (simp_all add: game_new_def cell_def present_def)
  note T = restart_lays_mines[OF r d]
  from T i have "mine (game_new\<lparr>ctx := (ctx game_new)\<lparr>startedAt := 8\<rparr>\<rparr>) 1 2
      = minesAround (game_new\<lparr>ctx := (ctx game_new)\<lparr>startedAt := 8\<rparr>\<rparr>) 2 1"
    by blast
  then have m: "mine game_new 1 2 = minesAround game_new 2 1"
    by (simp add: minesAround_def findBlocksAround_def)
  from T have "int (countCells (\<lambda>v. v = MINE_FLAG) (mines (ctx game_new))) = 2"
    "unknowns (ctx game_new) = 9"
    by (simp_all add: game_lost_def)
  with r d m show ?thesis by simp
qed

subsection \<open>C4: the transition table of \<^verbatim>\<open>mark\<close>\<close>

text \<open>
  C4: in every state of a game and for every coordinate pair inside the map, \<^verbatim>\<open>mark\<close>
  returns false and the state as it was when the status is not \<open>PLAYING\<close> or the block is
  not unknown, marked or questioned; otherwise it returns true and the state in which the
  block and the two counters are changed as the table \<open>markTable\<close> of the specification
  says (its nine entries are the last lines of the theorem), and nothing else is: \<^verbatim>\<open>_checkWin\<close>, which \<^verbatim>\<open>mark\<close> calls last, finds the two counters
  different and does nothing. A request for the state the block has already leaves the
  state as it was and returns true.
\<close>

theorem mark_transition_table:
  assumes "reachable s" and "inside s x y"
  shows "mark s (Integer x) (Integer y) style =
     (if status (ctx s) \<noteq> PLAYING
          \<or> \<not> (block s y x = UNKNWON \<or> block s y x = MARKED \<or> block s y x = QUESTION)
      then Inr (False, s)
      else Inr (True, markedAs s x y (markTable (block s y x) style)))
    \<and> (block s y x = fst (markTable (block s y x) style) \<and> snd (markTable (block s y x) style) = 0
         \<longrightarrow> markedAs s x y (markTable (block s y x) style) = s)
    \<and> markTable UNKNWON Style_MINE = (MARKED, - 1) \<and> markTable QUESTION Style_MINE = (MARKED, - 1)
    \<and> markTable MARKED Style_UNMARKED = (UNKNWON, 1) \<and> markTable MARKED Style_QUESTION = (QUESTION, 1)
    \<and> markTable UNKNWON Style_QUESTION = (QUESTION, 0) \<and> markTable QUESTION Style_UNMARKED = (UNKNWON, 0)
    \<and> markTable UNKNWON Style_UNMARKED = (UNKNWON, 0) \<and> markTable MARKED Style_MINE = (MARKED, 0)
    \<and> markTable QUESTION Style_QUESTION = (QUESTION, 0)"
proof -
  have tab: "markTable UNKNWON Style_MINE = (MARKED, - 1) \<and> markTable QUESTION Style_MINE = (MARKED, - 1)
    \<and> markTable MARKED Style_UNMARKED = (UNKNWON, 1) \<and> markTable MARKED Style_QUESTION = (QUESTION, 1)
    \<and> markTable UNKNWON Style_QUESTION = (QUESTION, 0) \<and> markTable QUESTION Style_UNMARKED = (UNKNWON, 0)
    \<and> markTable UNKNWON Style_UNMARKED = (UNKNWON, 0) \<and> markTable MARKED Style_MINE = (MARKED, 0)
    \<and> markTable QUESTION Style_QUESTION = (QUESTION, 0)"
    by (simp add: markTable_def)
  note c = reachable_consistent[OF assms(1)]
  have "markedAs s x y (markTable (block s y x) style) = s"
    if "block s y x = fst (markTable (block s y x) style)" "snd (markTable (block s y x) style) = 0"
    using setBlock_same[of s y x] that by (simp add: markedAs_def)
  moreover have "mark s (Integer x) (Integer y) style =
     (if status (ctx s) \<noteq> PLAYING
          \<or> \<not> (block s y x = UNKNWON \<or> block s y x = MARKED \<or> block s y x = QUESTION)
      then Inr (False, s)
      else Inr (True, markedAs s x y (markTable (block s y x) style)))"
  proof (cases "status (ctx s) \<noteq> PLAYING
          \<or> \<not> (block s y x = UNKNWON \<or> block s y x = MARKED \<or> block s y x = QUESTION)")
    case True
    from mark_rejected[OF assms(2) True] True show ?thesis by simp
  next
    case False
    then have st: "status (ctx s) = PLAYING"
      and blk: "block s y x = UNKNWON \<or> block s y x = MARKED \<or> block s y x = QUESTION" by auto
    from c st have "unknowns (ctx s) \<noteq> unmarkedMines (ctx s)" by (simp add: consistent_def)
    from mark_accepted[OF st assms(2) blk this] False show ?thesis by simp
  qed
  ultimately show ?thesis using tab by blast
qed

theorem mark_transition_table_witness:
  "reachable game_new \<and> inside game_new 0 0
   \<and> mark game_new (Integer 0) (Integer 0) Style_MINE = Inr (True, game_marked)
   \<and> markTable UNKNWON Style_MINE = (MARKED, - 1)
   \<and> unknowns (ctx game_marked) = unknowns (ctx game_new) - 1
   \<and> unmarkedMines (ctx game_marked) = unmarkedMines (ctx game_new) - 1
   \<and> mark game_new (Integer 0) (Integer 0) Style_UNMARKED = Inr (True, game_new)"
proof -
  have i: "inside game_new 0 0" by (simp add: game_new_def)
  have b: "block game_new 0 0 = UNKNWON" "status (ctx game_new) = PLAYING"
    by (simp_all add: game_new_def cell_def present_def)
  have m: "markedAs game_new 0 0 (MARKED, - 1) = game_marked"
    by (simp add: markedAs_def game_new_def game_marked_def setBlock_def setCell_def present_def)
  have t: "markTable UNKNWON Style_MINE = (MARKED, - 1)" "markTable UNKNWON Style_UNMARKED = (UNKNWON, 0)"
    by (simp_all add: markTable_def)
  note T = mark_transition_table[OF reachable_game_new i]
  from T[of Style_MINE] have 1: "mark game_new (Integer 0) (Integer 0) Style_MINE = Inr (True, game_marked)"
    by (simp add: b t m)
  from T[of Style_UNMARKED] have 2: "mark game_new (Integer 0) (Integer 0) Style_UNMARKED = Inr (True, game_new)"
    by (simp add: b t)
  from 1 2 i t reachable_game_new show ?thesis by (simp add: game_new_def game_marked_def)
qed

subsection \<open>C6: sweeping a mine\<close>

text \<open>
  C6: in every state of a game with the status \<open>PLAYING\<close>, sweeping an unknown block of the
  map that holds a mine returns \<open>FAILED\<close>; the new state is that of \<^verbatim>\<open>_die\<close>, with the status
  \<open>FAILED\<close>, everything but the status and the blocks as before, and in the blocks of the
  map: \<open>DEAD\<close> in the swept block and in no other; \<open>WRONG\<close> in a marked block without a mine;
  \<open>MINE\<close> in an unknown or questioned block with a mine; the mine count in an unknown or
  questioned block without a mine, unless \<open>showMinesOnlyOnFailed\<close> is set, which leaves it
  as it was; marked blocks with a mine and revealed blocks as they were.
\<close>

theorem sweep_mine_loses:
  assumes "reachable s" and "status (ctx s) = PLAYING" and "inside s x y"
    and "block s y x = UNKNWON" and "mine s y x = MINE_FLAG"
  shows "sweep s (Integer x) (Integer y) = Inr (FAILED, die s x y)
    \<and> sameButBlocks (s\<lparr>ctx := (ctx s)\<lparr>status := FAILED\<rparr>\<rparr>) (die s x y)
    \<and> map length (blocks (ctx (die s x y))) = map length (blocks (ctx s))
    \<and> (\<forall>cx cy. inside s cx cy \<longrightarrow>
          block (die s x y) cy cx =
            (if cx = x \<and> cy = y then DEAD
             else if block s cy cx = MARKED then (if mine s cy cx = MINE_FLAG then MARKED else WRONG)
             else if block s cy cx = UNKNWON \<or> block s cy cx = QUESTION then
               (if mine s cy cx = MINE_FLAG then MINE
                else if showMinesOnlyOnFailed s then block s cy cx
                else mine s cy cx)
             else block s cy cx))
    \<and> (\<forall>cx cy. inside s cx cy \<and> block (die s x y) cy cx = DEAD \<longrightarrow> cx = x \<and> cy = y)"
proof -
  note c = reachable_consistent[OF assms(1)]
  from c assms(2) have sh: "shaped s" and co: "counted s" and bo: "board s"
    by (simp_all add: consistent_def)
  have sw: "sweep s (Integer x) (Integer y) = Inr (FAILED, die s x y)"
    using assms(2,4,5) die_consistent(2)[OF c, of x y] unfolding sweep_cases[OF assms(3)] by simp
  have bl: "block (die s x y) cy cx =
            (if cx = x \<and> cy = y then DEAD
             else if block s cy cx = MARKED then (if mine s cy cx = MINE_FLAG then MARKED else WRONG)
             else if block s cy cx = UNKNWON \<or> block s cy cx = QUESTION then
               (if mine s cy cx = MINE_FLAG then MINE
                else if showMinesOnlyOnFailed s then block s cy cx
                else mine s cy cx)
             else block s cy cx)" if "inside s cx cy" for cx cy
    unfolding die_result(3) using that shaped_present(1)[OF sh, of cy cx]
    by (simp add: dieValue_def)
  have dead: "cx = x \<and> cy = y" if i: "inside s cx cy" and d: "block (die s x y) cy cx = DEAD" for cx cy
  proof (rule ccontr)
    assume n: "\<not> (cx = x \<and> cy = y)"
    from bo i have b: "block s cy cx = UNKNWON \<or> block s cy cx = MARKED \<or> block s cy cx = QUESTION
        \<or> (0 \<le> block s cy cx \<and> block s cy cx = mine s cy cx)"
      unfolding board_def by blast
    have m: "mine s cy cx \<noteq> MINE_FLAG \<Longrightarrow> 0 \<le> mine s cy cx"
      by (rule counted_nonneg[OF co i])
    from d n b m show False unfolding bl[OF i] by (auto split: if_splits)
  qed
  from sw die_result(1,2)[of s x y] bl dead show ?thesis by blast
qed

theorem sweep_mine_loses_witness:
  "reachable game_new \<and> status (ctx game_new) = PLAYING \<and> inside game_new 0 0
   \<and> block game_new 0 0 = UNKNWON \<and> mine game_new 0 0 = MINE_FLAG
   \<and> sweep game_new (Integer 0) (Integer 0) = Inr (FAILED, game_lost)
   \<and> blocks (ctx game_lost) = [[DEAD, MINE, 1], [2, 2, 1], [0, 0, 0]]"
proof -
  have h: "status (ctx game_new) = PLAYING" "inside game_new 0 0"
    "block game_new 0 0 = UNKNWON" "mine game_new 0 0 = MINE_FLAG"
    by (simp_all add: game_new_def cell_def present_def)
  from sweep_mine_loses[OF reachable_game_new h] sweep_game_new_mine
  have "die game_new 0 0 = game_lost" by simp
  with sweep_mine_loses[OF reachable_game_new h] h reachable_game_new
  show ?thesis by (simp add: game_lost_def)
qed

subsection \<open>C7: what \<open>unknowns\<close> counts\<close>

text \<open>
  C7 says that in every state of a game, whatever the status, \<open>unknowns\<close> is the number of
  unknown and questioned blocks. It is not so in a lost game: \<^verbatim>\<open>_die\<close> rewrites the blocks
  and leaves \<open>unknowns\<close> as it was. In \<open>game_lost\<close>, reached by sweeping a mine in the new
  game, \<open>unknowns\<close> is 9 and no block is unknown or questioned.
\<close>

theorem unknowns_lost_cex:
  "reachable game_lost
   \<and> unknowns (ctx game_lost) = 9
   \<and> countCells (\<lambda>v. v = UNKNWON \<or> v = QUESTION) (blocks (ctx game_lost)) = 0"
  using reachable_game_lost by (simp add: game_lost_def countCells_def)

text \<open>
  C7 as the code has it: in every state of a game whose status is \<open>PLAYING\<close> or \<open>WIN\<close>,
  \<open>unknowns\<close> is the number of unknown and questioned blocks.
\<close>

theorem unknowns_counts_hidden:
  assumes "reachable s" and "status (ctx s) \<noteq> FAILED"
  shows "unknowns (ctx s) = int (countCells (\<lambda>v. v = UNKNWON \<or> v = QUESTION) (blocks (ctx s)))"
proof (cases "status (ctx s)")
  case PLAYING
  with reachable_consistent[OF assms(1)] show ?thesis by (simp add: consistent_def tallied_def)
next
  case WIN
  with reachable_consistent[OF assms(1)] have sh: "shaped s" and co: "counted s"
    and u: "unknowns (ctx s) = 0" and cl: "cleared s" and mm: "minesMarked s"
    by (simp_all add: consistent_def)
  have "{(y, x). present (blocks (ctx s)) y x \<and> (block s y x = UNKNWON \<or> block s y x = QUESTION)} = {}"
  proof -
    have "\<not> (block s y x = UNKNWON \<or> block s y x = QUESTION)" if i: "inside s x y" for x y
    proof (cases "mine s y x = MINE_FLAG")
      case True
      with mm i have "block s y x = MARKED" unfolding minesMarked_def by blast
      then show ?thesis by simp
    next
      case False
      with cl i have "block s y x = mine s y x" unfolding cleared_def by blast
      with counted_nonneg[OF co i False] show ?thesis by simp
    qed
    then show ?thesis unfolding shaped_present(1)[OF sh] by blast
  qed
  then have "countCells (\<lambda>v. v = UNKNWON \<or> v = QUESTION) (blocks (ctx s)) = 0"
    by (simp only: countCells_card card.empty)
  with u show ?thesis by simp
next
  case FAILED
  with assms(2) show ?thesis by simp
qed

theorem unknowns_counts_hidden_witness:
  "reachable game_swept \<and> status (ctx game_swept) \<noteq> FAILED
   \<and> unknowns (ctx game_swept) = 3
   \<and> countCells (\<lambda>v. v = UNKNWON \<or> v = QUESTION) (blocks (ctx game_swept)) = 3"
proof -
  have s: "status (ctx game_swept) \<noteq> FAILED" "unknowns (ctx game_swept) = 3"
    by (simp_all add: game_swept_def)
  from unknowns_counts_hidden[OF reachable_game_swept s(1)] s reachable_game_swept
  show ?thesis by simp
qed

subsection \<open>C2: when a game is won\<close>

text \<open>
  C2 says that after an action on a game being played the status is \<open>WIN\<close> if and only if
  every cell without a mine shows its mine count. A sweep that hits a mine breaks this:
  \<^verbatim>\<open>_die\<close> reveals the mine count of every unknown or questioned cell without a mine
  (\<open>showMinesOnlyOnFailed\<close> not set), and the status is \<open>FAILED\<close>. Sweeping the mine at the
  top left of the new game leaves every cell without a mine showing its count
  (\<open>cleared\<close>), and the game is lost, not won.
\<close>

theorem win_iff_cleared_cex:
  "reachable game_new \<and> status (ctx game_new) = PLAYING
   \<and> sweep game_new (Integer 0) (Integer 0) = Inr (FAILED, game_lost)
   \<and> status (ctx game_lost) = FAILED
   \<and> blocks (ctx game_lost) = [[DEAD, MINE, 1], [2, 2, 1], [0, 0, 0]]
   \<and> mines (ctx game_lost) = [[- 1, - 1, 1], [2, 2, 1], [0, 0, 0]]
   \<and> cleared game_lost"
  using reachable_game_new sweep_game_new_mine cleared_game_lost
  by (simp add: game_new_def game_lost_def)

text \<open>
  C2 as the code has it: after any \<^verbatim>\<open>mark\<close>, \<^verbatim>\<open>sweep\<close> or \<^verbatim>\<open>explore\<close> that returns, on a state
  of a game with the status \<open>PLAYING\<close>, the status is \<open>WIN\<close> if and only if it is not \<open>FAILED\<close>
  and every cell without a mine shows its mine count. When the status is \<open>WIN\<close>,
  \<open>unmarkedMines\<close> (what \<^verbatim>\<open>getRestMineQuantity\<close> returns) is 0, every cell with a mine reads
  \<open>MARKED\<close>, and every block that showed a mine count before the action shows the same.
\<close>

theorem win_iff_cleared:
  assumes "reachable s" and "status (ctx s) = PLAYING"
    and "mark s x y style = Inr (b, t) \<or> sweep s x y = Inr (r, t) \<or> explore s x y = Inr (r, t)"
  shows "(status (ctx t) = WIN \<longleftrightarrow> status (ctx t) \<noteq> FAILED \<and> cleared t)
    \<and> (status (ctx t) = WIN \<longrightarrow>
          unmarkedMines (ctx t) = 0 \<and> minesMarked t
          \<and> (\<forall>cx cy. inside s cx cy \<and> 0 \<le> block s cy cx \<longrightarrow> block t cy cx = block s cy cx))"
proof -
  note cs = reachable_consistent[OF assms(1)]
  note ct = reachable_consistent[OF step_reachable[OF assms(1,3)]]
  note fr = step_frame[OF cs assms(3)]
  from cs assms(2) have co: "counted s" and bo: "board s" by (simp_all add: consistent_def)
  have "block t cy cx = block s cy cx"
    if w: "status (ctx t) = WIN" and i: "inside s cx cy" and p: "0 \<le> block s cy cx" for cx cy
  proof -
    from bo i p have e: "block s cy cx = mine s cy cx" unfolding board_def by force
    with p have nm: "mine t cy cx \<noteq> MINE_FLAG" using fr by simp
    from ct w have "cleared t" by (simp add: consistent_def)
    with i nm fr have "block t cy cx = mine t cy cx" unfolding cleared_def by simp
    with e fr show ?thesis by simp
  qed
  moreover have "unmarkedMines (ctx t) = 0 \<and> minesMarked t" if "status (ctx t) = WIN"
    using ct that by (simp add: consistent_def)
  ultimately show ?thesis using consistent_status[OF ct] by blast
qed

theorem win_iff_cleared_witness:
  "reachable game_swept \<and> status (ctx game_swept) = PLAYING
   \<and> sweep game_swept (Integer 2) (Integer 0) = Inr (WIN, game_won)
   \<and> status (ctx game_won) = WIN \<and> cleared game_won
   \<and> unmarkedMines (ctx game_won) = 0 \<and> minesMarked game_won
   \<and> block game_won 1 0 = block game_swept 1 0"
proof -
  have s: "status (ctx game_swept) = PLAYING" "status (ctx game_won) = WIN"
    "inside game_swept 0 1 \<and> 0 \<le> block game_swept 1 0"
    by (simp_all add: game_swept_def game_won_def cell_def present_def)
  have a: "mark game_swept (Integer 2) (Integer 0) Style_MINE = Inr (True, game_won)
      \<or> sweep game_swept (Integer 2) (Integer 0) = Inr (WIN, game_won)
      \<or> explore game_swept (Integer 2) (Integer 0) = Inr (WIN, game_won)"
    using sweep_game_swept_last by simp
  note T = win_iff_cleared[OF reachable_game_swept s(1) a]
  from T s(2) have "cleared game_won" "unmarkedMines (ctx game_won) = 0" "minesMarked game_won" by simp_all
  moreover from T s(2,3) have "block game_won 1 0 = block game_swept 1 0" by blast
  ultimately show ?thesis using reachable_game_swept s sweep_game_swept_last by simp
qed

subsection \<open>C3: marking and the win test\<close>

text \<open>
  C3 says that some sequence of marks on a game being played makes the two counters
  equal, so that the game is declared won, while a cell without a mine is still not
  revealed. No such game exists: \<^verbatim>\<open>mark\<close> adds the same amount to both counters, which
  differ in every state with the status \<open>PLAYING\<close>, so that no \<^verbatim>\<open>mark\<close> on such a state,
  and hence no sequence of them, ends with the status \<open>WIN\<close>; and in no state of a game
  with the status \<open>WIN\<close> is a cell without a mine left that does not show its mine count.
\<close>

theorem marks_never_win_cex:
  "\<not> (\<exists>s x y style b t. reachable s \<and> status (ctx s) = PLAYING
         \<and> mark s x y style = Inr (b, t) \<and> status (ctx t) \<noteq> PLAYING)
   \<and> \<not> (\<exists>s x y. reachable s \<and> status (ctx s) = WIN
         \<and> inside s x y \<and> mine s y x \<noteq> MINE_FLAG \<and> block s y x \<noteq> mine s y x)"
proof (intro conjI notI)
  assume "\<exists>s x y style b t. reachable s \<and> status (ctx s) = PLAYING
         \<and> mark s x y style = Inr (b, t) \<and> status (ctx t) \<noteq> PLAYING"
  then obtain s x y style b t where r: "reachable s" and st: "status (ctx s) = PLAYING"
    and m: "mark s x y style = Inr (b, t)" and n: "status (ctx t) \<noteq> PLAYING" by blast
  note c = reachable_consistent[OF r]
  from m st have "checkCoordinate s x y" by (auto simp: mark_def getBlock_def split: if_splits)
  then obtain xi yi where xy: "x = Integer xi" "y = Integer yi" and ins: "inside s xi yi"
    by (rule accepted_coordinates)
  show False
  proof (cases "block s yi xi = UNKNWON \<or> block s yi xi = MARKED \<or> block s yi xi = QUESTION")
    case False
    with mark_rejected[OF ins, of style] m st n show False unfolding xy by simp
  next
    case blk: True
    from c st have "unknowns (ctx s) \<noteq> unmarkedMines (ctx s)" by (simp add: consistent_def)
    from mark_accepted[OF st ins blk this, of style] m
    have "t = markedAs s xi yi (markTable (block s yi xi) style)" unfolding xy by simp
    with st n show False by simp
  qed
next
  assume "\<exists>s x y. reachable s \<and> status (ctx s) = WIN
         \<and> inside s x y \<and> mine s y x \<noteq> MINE_FLAG \<and> block s y x \<noteq> mine s y x"
  then obtain s x y where r: "reachable s" and st: "status (ctx s) = WIN"
    and i: "inside s x y" "mine s y x \<noteq> MINE_FLAG" "block s y x \<noteq> mine s y x" by blast
  from reachable_consistent[OF r] st have "cleared s" by (simp add: consistent_def)
  with i show False unfolding cleared_def by blast
qed

text \<open>
  C3 as the code has it: in every state of a game with the status \<open>PLAYING\<close> the two
  counters differ, and every \<^verbatim>\<open>mark\<close> that returns leaves the status \<open>PLAYING\<close>, the
  difference of the two counters as it was, and the counters different still.
\<close>

theorem marks_keep_difference:
  assumes "reachable s" and "status (ctx s) = PLAYING" and "mark s x y style = Inr (b, t)"
  shows "status (ctx t) = PLAYING
    \<and> unknowns (ctx t) - unmarkedMines (ctx t) = unknowns (ctx s) - unmarkedMines (ctx s)
    \<and> unknowns (ctx s) \<noteq> unmarkedMines (ctx s)
    \<and> unknowns (ctx t) \<noteq> unmarkedMines (ctx t)"
proof -
  note c = reachable_consistent[OF assms(1)]
  from c assms(2) have ne: "unknowns (ctx s) \<noteq> unmarkedMines (ctx s)" by (simp add: consistent_def)
  from assms(2,3) have "checkCoordinate s x y" by (auto simp: mark_def getBlock_def split: if_splits)
  then obtain xi yi where xy: "x = Integer xi" "y = Integer yi" and ins: "inside s xi yi"
    by (rule accepted_coordinates)
  show ?thesis
  proof (cases "block s yi xi = UNKNWON \<or> block s yi xi = MARKED \<or> block s yi xi = QUESTION")
    case False
    with mark_rejected[OF ins, of style] assms(2,3) ne show ?thesis unfolding xy by simp
  next
    case blk: True
    from mark_accepted[OF assms(2) ins blk ne, of style] assms(3)
    have "t = markedAs s xi yi (markTable (block s yi xi) style)" unfolding xy by simp
    with assms(2) ne show ?thesis by simp
  qed
qed

theorem marks_keep_difference_witness:
  "reachable game_new \<and> status (ctx game_new) = PLAYING
   \<and> mark game_new (Integer 0) (Integer 0) Style_MINE = Inr (True, game_marked)
   \<and> status (ctx game_marked) = PLAYING
   \<and> unknowns (ctx game_marked) - unmarkedMines (ctx game_marked) = 7
   \<and> unknowns (ctx game_new) - unmarkedMines (ctx game_new) = 7"
proof -
  have s: "status (ctx game_new) = PLAYING" "unknowns (ctx game_new) - unmarkedMines (ctx game_new) = 7"
    by (simp_all add: game_new_def)
  from marks_keep_difference[OF reachable_game_new s(1) mark_game_new] s reachable_game_new mark_game_new
  show ?thesis by simp
qed

subsection \<open>C5: the flood fill of \<^verbatim>\<open>sweep\<close>\<close>

text \<open>
  C5: in every state of a game with the status \<open>PLAYING\<close>, sweeping an unknown block
  \<open>(x, y)\<close> of the map that holds no mine reveals exactly the blocks of \<open>floodSet s x y\<close>:
  the swept block, and from every revealed block with no mine around it the unknown
  blocks around it (all eight directions), on and on; blocks around a revealed block with
  mines around it are not revealed from it. Each of these blocks was unknown (never
  marked or questioned) and now shows its mine count; every other block is as it was;
  \<open>unknowns\<close> has gone down by the number of blocks of the set, one for each. This is the
  state \<open>sweepReveal s x y\<close> on which \<^verbatim>\<open>sweep\<close> then calls \<^verbatim>\<open>_checkWin\<close> (see C2), whose
  result it returns. When not every cell without a mine is revealed yet, the result is
  that very state, with the status \<open>PLAYING\<close>; when every one is, \<^verbatim>\<open>_checkWin\<close> sets the
  status \<open>WIN\<close> and both counters to 0 and marks the cells with a mine, the other blocks
  staying as the flood fill left them.
\<close>

theorem sweep_flood_fill:
  assumes "reachable s" and "status (ctx s) = PLAYING" and "inside s x y"
    and "block s y x = UNKNWON" and "mine s y x \<noteq> MINE_FLAG"
  shows "sweep s (Integer x) (Integer y)
      = Inr (status (ctx (checkWin (sweepReveal s x y))), checkWin (sweepReveal s x y))
    \<and> sameButBoard s (sweepReveal s x y)
    \<and> map length (blocks (ctx (sweepReveal s x y))) = map length (blocks (ctx s))
    \<and> (\<forall>cx cy. block (sweepReveal s x y) cy cx
          = (if (cx, cy) \<in> floodSet s x y then mine s cy cx else block s cy cx))
    \<and> (\<forall>c \<in> floodSet s x y. inside s (fst c) (snd c) \<and> block s (snd c) (fst c) = UNKNWON
          \<and> 0 \<le> mine s (snd c) (fst c))
    \<and> unknowns (ctx (sweepReveal s x y)) = unknowns (ctx s) - int (card (floodSet s x y))
    \<and> (\<not> cleared (sweepReveal s x y)
         \<longrightarrow> sweep s (Integer x) (Integer y) = Inr (PLAYING, sweepReveal s x y))
    \<and> (cleared (sweepReveal s x y)
         \<longrightarrow> sweep s (Integer x) (Integer y) = Inr (WIN, checkWin (sweepReveal s x y))
           \<and> sameButBlocks
                ((sweepReveal s x y)\<lparr>ctx := (ctx (sweepReveal s x y))
                    \<lparr>status := WIN, unmarkedMines := 0, unknowns := 0\<rparr>\<rparr>)
                (checkWin (sweepReveal s x y))
           \<and> (\<forall>cx cy. block (checkWin (sweepReveal s x y)) cy cx
                 = (if inside s cx cy \<and> mine s cy cx = MINE_FLAG then MARKED
                    else block (sweepReveal s x y) cy cx)))"
proof -
  note c = reachable_consistent[OF assms(1)]
  from c assms(2) have va: "valid s" and sh: "shaped s" and co: "counted s"
    and mc: "int (countCells (\<lambda>v. v = MINE_FLAG) (mines (ctx s))) = mineQuantity s"
    and bo: "board s" and ta: "tallied s"
    by (simp_all add: consistent_def)
  let ?u = "sweepReveal s x y"
  note R = sweepReveal_result[OF sh co assms(3,4,5)]
  note T = sweepReveal_tallied[OF sh co assms(3,4,5) bo ta]
  note f = sameButBoard_fields[OF R(1)]
  have sw: "sweep s (Integer x) (Integer y) = Inr (status (ctx (checkWin ?u)), checkWin ?u)"
    using assms(2,4,5) unfolding sweep_cases[OF assms(3)] by simp
  have va': "valid ?u" using va f by (simp add: valid_def)
  have sh': "shaped ?u" using sh shaped_frame[of ?u s] R(2) f by simp
  have co': "counted ?u" using co counted_frame[of ?u s] f by simp
  have mc': "int (countCells (\<lambda>v. v = MINE_FLAG) (mines (ctx ?u))) = mineQuantity ?u"
    using mc f by simp
  have st': "status (ctx ?u) = PLAYING" using assms(2) f by simp
  note W = checkWin_consistent[OF va' sh' co' mc' T st']
  have pl: "sweep s (Integer x) (Integer y) = Inr (PLAYING, ?u)" if "\<not> cleared ?u"
    unfolding sw W(3)[OF that] st' ..
  have wn: "sweep s (Integer x) (Integer y) = Inr (WIN, checkWin ?u)" if "cleared ?u"
    unfolding sw W(2) using that by simp
  have wb: "block (checkWin ?u) cy cx
      = (if inside s cx cy \<and> mine s cy cx = MINE_FLAG then MARKED else block ?u cy cx)"
    if "cleared ?u" for cx cy
    using W(5)[OF that, of cy cx] f by simp
  have cells: "\<forall>c \<in> floodSet s x y. inside s (fst c) (snd c) \<and> block s (snd c) (fst c) = UNKNWON
          \<and> 0 \<le> mine s (snd c) (fst c)"
    using floodSet_cells[OF co assms(3,4,5)] by blast
  from sw R cells pl wn W(4) wb show ?thesis by blast
qed

theorem sweep_flood_fill_witness:
  "reachable game_new \<and> status (ctx game_new) = PLAYING \<and> inside game_new 0 2
   \<and> block game_new 2 0 = UNKNWON \<and> mine game_new 2 0 \<noteq> MINE_FLAG
   \<and> sweep game_new (Integer 0) (Integer 2) = Inr (PLAYING, game_swept)
   \<and> blocks (ctx game_swept) = [[- 1, - 1, - 1], [2, 2, 1], [0, 0, 0]]
   \<and> card (floodSet game_new 0 2) = 6"
proof -
  have h: "status (ctx game_new) = PLAYING" "inside game_new 0 2"
    "block game_new 2 0 = UNKNWON" "mine game_new 2 0 \<noteq> MINE_FLAG"
    by (simp_all add: game_new_def cell_def present_def)
  note T = sweep_flood_fill[OF reachable_game_new h]
  from T have "unknowns (ctx (sweepReveal game_new 0 2))
      = unknowns (ctx game_new) - int (card (floodSet game_new 0 2))" by blast
  then have "card (floodSet game_new 0 2) = 6"
    unfolding sweepReveal_game_new by (simp add: game_new_def game_swept_def)
  with h reachable_game_new sweep_game_new_safe show ?thesis by (simp add: game_swept_def)
qed

subsection \<open>C10: sweeping a cell without a mine is safe\<close>

text \<open>
  C10: in every state of a game with the status \<open>PLAYING\<close>, sweeping an unknown block of
  the map that holds no mine returns, never with the status \<open>FAILED\<close>. Every block the
  flood fill reveals has a mine count of 0 or more, which it now shows; besides these,
  only blocks with a mine change, to \<open>MARKED\<close>, and only when the sweep wins the game. So no
  block of the map reads \<open>MINE\<close>, \<open>DEAD\<close> or \<open>WRONG\<close> afterwards, and no mine is revealed.
\<close>

theorem safe_sweep_never_loses:
  assumes "reachable s" and "status (ctx s) = PLAYING" and "inside s x y"
    and "block s y x = UNKNWON" and "mine s y x \<noteq> MINE_FLAG"
  shows "\<exists>r t. sweep s (Integer x) (Integer y) = Inr (r, t)
    \<and> r = status (ctx t) \<and> status (ctx t) \<noteq> FAILED
    \<and> (\<forall>cx cy. block t cy cx = block s cy cx
          \<or> ((cx, cy) \<in> floodSet s x y \<and> block s cy cx = UNKNWON
              \<and> block t cy cx = mine s cy cx \<and> 0 \<le> mine s cy cx)
          \<or> (status (ctx t) = WIN \<and> mine s cy cx = MINE_FLAG \<and> block t cy cx = MARKED))
    \<and> (\<forall>cx cy. inside s cx cy \<longrightarrow>
          block t cy cx \<noteq> MINE \<and> block t cy cx \<noteq> DEAD \<and> block t cy cx \<noteq> WRONG)"
proof -
  note c = reachable_consistent[OF assms(1)]
  from c assms(2) have va: "valid s" and sh: "shaped s" and co: "counted s"
    and mc: "int (countCells (\<lambda>v. v = MINE_FLAG) (mines (ctx s))) = mineQuantity s"
    and bo: "board s" and ta: "tallied s"
    by (simp_all add: consistent_def)
  let ?u = "sweepReveal s x y"
  let ?t = "checkWin ?u"
  note R = sweepReveal_result[OF sh co assms(3,4,5)]
  note T = sweepReveal_tallied[OF sh co assms(3,4,5) bo ta]
  note f = sameButBoard_fields[OF R(1)]
  note cells = floodSet_cells[OF co assms(3,4,5)]
  have sw: "sweep s (Integer x) (Integer y) = Inr (status (ctx ?t), ?t)"
    using assms(2,4,5) unfolding sweep_cases[OF assms(3)] by simp
  have va': "valid ?u" using va f by (simp add: valid_def)
  have sh': "shaped ?u" using sh shaped_frame[of ?u s] R(2) f by simp
  have co': "counted ?u" using co counted_frame[of ?u s] f by simp
  have mc': "int (countCells (\<lambda>v. v = MINE_FLAG) (mines (ctx ?u))) = mineQuantity ?u"
    using mc f by simp
  have st': "status (ctx ?u) = PLAYING" using assms(2) f by simp
  note W = checkWin_consistent[OF va' sh' co' mc' T st']
  have nf: "status (ctx ?t) \<noteq> FAILED" unfolding W(2) by simp
  have ch: "block ?t cy cx = block s cy cx
          \<or> ((cx, cy) \<in> floodSet s x y \<and> block s cy cx = UNKNWON
              \<and> block ?t cy cx = mine s cy cx \<and> 0 \<le> mine s cy cx)
          \<or> (status (ctx ?t) = WIN \<and> mine s cy cx = MINE_FLAG \<and> block ?t cy cx = MARKED)" for cx cy
  proof (cases "cleared ?u")
    case False
    from W(3)[OF False] R(3)[of cy cx] cells[of "(cx, cy)"] show ?thesis
      by (cases "(cx, cy) \<in> floodSet s x y") simp_all
  next
    case True
    have b: "block ?t cy cx = (if inside s cx cy \<and> mine s cy cx = MINE_FLAG then MARKED else block ?u cy cx)"
      using W(5)[OF True, of cy cx] f by simp
    have w: "status (ctx ?t) = WIN" using W(2) True by simp
    show ?thesis
    proof (cases "inside s cx cy \<and> mine s cy cx = MINE_FLAG")
      case True
      with b w show ?thesis by simp
    next
      case False
      with b R(3)[of cy cx] cells[of "(cx, cy)"] show ?thesis
        by (cases "(cx, cy) \<in> floodSet s x y") auto
    qed
  qed
  have no: "block ?t cy cx \<noteq> MINE \<and> block ?t cy cx \<noteq> DEAD \<and> block ?t cy cx \<noteq> WRONG" if i: "inside s cx cy" for cx cy
  proof -
    from bo i have "block s cy cx = UNKNWON \<or> block s cy cx = MARKED \<or> block s cy cx = QUESTION
        \<or> (0 \<le> block s cy cx \<and> block s cy cx = mine s cy cx)"
      unfolding board_def by blast
    with ch[of cy cx] show ?thesis by auto
  qed
  from sw nf ch no show ?thesis by blast
qed

theorem safe_sweep_never_loses_witness:
  "reachable game_swept \<and> status (ctx game_swept) = PLAYING \<and> inside game_swept 2 0
   \<and> block game_swept 0 2 = UNKNWON \<and> mine game_swept 0 2 \<noteq> MINE_FLAG
   \<and> sweep game_swept (Integer 2) (Integer 0) = Inr (WIN, game_won)
   \<and> block game_won 0 2 = 1 \<and> block game_won 0 0 = MARKED"
proof -
  have h: "status (ctx game_swept) = PLAYING" "inside game_swept 2 0"
    "block game_swept 0 2 = UNKNWON" "mine game_swept 0 2 \<noteq> MINE_FLAG"
    by (simp_all add: game_swept_def cell_def present_def)
  from safe_sweep_never_loses[OF reachable_game_swept h] sweep_game_swept_last
  have "status (ctx game_won) \<noteq> FAILED" by auto
  with h reachable_game_swept sweep_game_swept_last show ?thesis
    by (simp add: game_won_def cell_def present_def)
qed

end
